theory Spec2Isabelle
  imports Main "HOL-Library.Word" "HOL-Library.AList"
begin

unbundle bit_operations_syntax

section \<open>Data model (node.h)\<close>

text \<open>
  The tree is instantiated at \<^verbatim>\<open>key_t = uint64_t\<close> (the benchmark's \<^verbatim>\<open>Key_t\<close>).
  Values, versions and node pointers are 64-bit words as well; the null pointer is 0.
  A leaf entry \<^verbatim>\<open>Entry<key_t, uint64_t>\<close> and an internal entry \<^verbatim>\<open>Entry<key_t, Node*>\<close>
  have the same layout, and the tree reads its first root, constructed as an
  \<^verbatim>\<open>InternalNode\<close>, through \<^verbatim>\<open>static_cast<LeafNode*>\<close>: one record models both classes,
  the value slot of an entry holding a payload in a leaf and a child pointer in an
  internal node.

  \<^verbatim>\<open>int cnt\<close> and \<^verbatim>\<open>uint32_t level\<close> are natural numbers here: \<^verbatim>\<open>cnt\<close> is only
  decremented by \<^verbatim>\<open>LeafNode::remove\<close> after a key was found among the first \<^verbatim>\<open>cnt\<close>
  entries, and \<^verbatim>\<open>level\<close> only grows by one when a full root splits, so that a tree
  of level \<open>h\<close> has at least \<open>13 ^ (h - 1)\<close> nodes and neither field can reach
  the end of its machine range in any address space.

  The array \<^verbatim>\<open>entry[cardinality]\<close> is a list of length \<open>cardinality\<close>; slots at and
  after \<^verbatim>\<open>cnt\<close> (one further in an internal node) hold whatever was there before.
\<close>

type_synonym u64 = "64 word"
type_synonym key_t = u64
type_synonym ptr = u64

definition nullptr :: ptr where
  "nullptr = 0"

record Node =
  lock :: u64
  sibling_ptr :: ptr
  cnt :: nat
  level :: nat
  high_key :: key_t
  entry :: "(key_t \<times> u64) list"

definition PAGE_SIZE :: nat where
  "PAGE_SIZE = 512"

text \<open>
  \<^verbatim>\<open>sizeof(Node)\<close>: an 8-byte atomic, an 8-byte pointer, a 4-byte \<^verbatim>\<open>int\<close> and a
  4-byte \<^verbatim>\<open>uint32_t\<close>. The README's run prints
  \<^verbatim>\<open>InternalNode_Size(30), LeafNode_Size(30)\<close>.
\<close>

definition sizeof_Node :: nat where
  "sizeof_Node = 8 + 8 + 4 + 4"

definition sizeof_key_t :: nat where
  "sizeof_key_t = 8"

definition sizeof_Entry :: nat where
  "sizeof_Entry = sizeof_key_t + 8"

definition cardinality :: nat where
  "cardinality = (PAGE_SIZE - sizeof_Node - sizeof_key_t) div sizeof_Entry"

subsection \<open>The version latch\<close>

definition is_locked :: "u64 \<Rightarrow> bool" where
  "is_locked version = (version AND 2 = 2)"

definition is_obsolete :: "u64 \<Rightarrow> bool" where
  "is_obsolete version = (version AND 1 = 1)"

text \<open>\<^verbatim>\<open>need_restart(version, restart)\<close> writes its out-parameter only when it restarts.\<close>

definition need_restart :: "u64 \<Rightarrow> bool \<Rightarrow> bool" where
  "need_restart version restart =
     (if is_locked version \<or> is_obsolete version then True else restart)"

text \<open>
  \<^verbatim>\<open>compare_exchange_strong(expected, desired)\<close> on a cell holding \<open>cur\<close>: success and
  the new content of the cell.
\<close>

definition compare_exchange_strong :: "u64 \<Rightarrow> u64 \<Rightarrow> u64 \<Rightarrow> bool \<times> u64" where
  "compare_exchange_strong cur expected desired =
     (if cur = expected then (True, desired) else (False, cur))"

text \<open>
  \<^verbatim>\<open>try_writelock\<close> loads the latch and later runs a compare-and-swap on it. Another
  thread may write the latch in between, so the model takes both contents: what the load
  saw and what the cell holds when the compare-and-swap runs. It returns the result and
  the content of the cell afterwards.
\<close>

definition try_writelock :: "u64 \<Rightarrow> u64 \<Rightarrow> bool \<times> u64" where
  "try_writelock at_load at_cas =
     (let version = at_load;
          restart = need_restart version False
      in if \<not> restart then (False, at_cas)
         else compare_exchange_strong at_cas version (version + 2))"

text \<open>
  \<^verbatim>\<open>try_readlock\<close> and \<^verbatim>\<open>get_version\<close>: the version read and the restart flag
  afterwards.
\<close>

definition try_readlock :: "Node \<Rightarrow> bool \<Rightarrow> u64 \<times> bool" where
  "try_readlock n restart = (lock n, need_restart (lock n) restart)"

definition get_version :: "Node \<Rightarrow> bool \<Rightarrow> u64 \<times> bool" where
  "get_version n restart = (lock n, need_restart (lock n) restart)"

text \<open>
  \<^verbatim>\<open>try_upgrade_writelock\<close> run by the only thread: the second load and the
  compare-and-swap see the content of the first load.
\<close>

definition try_upgrade_writelock :: "Node \<Rightarrow> u64 \<Rightarrow> bool \<Rightarrow> Node \<times> bool" where
  "try_upgrade_writelock n version restart =
     (let version' = lock n
      in if version \<noteq> version' then (n, True)
         else case compare_exchange_strong (lock n) version' (version' + 2) of
                (ok, l) \<Rightarrow> (n\<lparr>lock := l\<rparr>, if \<not> ok then True else restart))"

definition write_unlock :: "Node \<Rightarrow> Node" where
  "write_unlock n = n\<lparr>lock := lock n + 2\<rparr>"

definition write_unlock_obsolete :: "Node \<Rightarrow> Node" where
  "write_unlock_obsolete n = n\<lparr>lock := lock n + 3\<rparr>"

subsection \<open>Block copies\<close>

text \<open>
  \<^verbatim>\<open>memcpy(dst + d, src + s, n)\<close> on entry arrays, and \<^verbatim>\<open>memmove\<close> within one array.
  Both are used by the node operations with \<open>s + n\<close> and \<open>d + n\<close> inside the arrays.
\<close>

definition memcpy :: "'a list \<Rightarrow> nat \<Rightarrow> 'a list \<Rightarrow> nat \<Rightarrow> nat \<Rightarrow> 'a list" where
  "memcpy dst d src s n = take d dst @ take n (drop s src) @ drop (d + n) dst"

definition memmove :: "'a list \<Rightarrow> nat \<Rightarrow> nat \<Rightarrow> nat \<Rightarrow> 'a list" where
  "memmove xs d s n = memcpy xs d xs s n"

subsection \<open>Constructors\<close>

text \<open>
  A constructor runs on the storage \<^verbatim>\<open>new\<close> returned; \<open>raw\<close> is that storage read as a
  node, and the fields a constructor does not write keep their content.
\<close>

definition Node_default :: "Node \<Rightarrow> Node" where
  "Node_default raw = raw\<lparr>lock := 0, sibling_ptr := nullptr, cnt := 0, level := 0\<rparr>"

definition Node_init :: "Node \<Rightarrow> ptr \<Rightarrow> nat \<Rightarrow> nat \<Rightarrow> Node" where
  "Node_init raw sibling count lvl =
     raw\<lparr>lock := 0, sibling_ptr := sibling, cnt := count, level := lvl\<rparr>"

text \<open>\<^verbatim>\<open>InternalNode()\<close>\<close>

definition InternalNode_default :: "Node \<Rightarrow> Node" where
  "InternalNode_default raw = Node_default raw"

text \<open>\<^verbatim>\<open>InternalNode(sibling, count, left, _level, _high_key)\<close>\<close>

definition InternalNode_split_ctor :: "Node \<Rightarrow> ptr \<Rightarrow> nat \<Rightarrow> ptr \<Rightarrow> nat \<Rightarrow> key_t \<Rightarrow> Node" where
  "InternalNode_split_ctor raw sibling count left lvl hk =
     (let n = (Node_init raw sibling count lvl)\<lparr>high_key := hk\<rparr>
      in n\<lparr>entry := (entry n)[0 := (fst (entry n ! 0), left)]\<rparr>)"

text \<open>\<^verbatim>\<open>InternalNode(split_key, left, right, sibling, _level, _high_key)\<close>\<close>

definition InternalNode_root_ctor ::
  "Node \<Rightarrow> key_t \<Rightarrow> ptr \<Rightarrow> ptr \<Rightarrow> ptr \<Rightarrow> nat \<Rightarrow> key_t \<Rightarrow> Node" where
  "InternalNode_root_ctor raw split_key left right sibling lvl hk =
     (let n = (Node_init raw sibling 1 lvl)\<lparr>high_key := hk\<rparr>;
          e0 = (entry n)[0 := (split_key, snd (entry n ! 0))];
          e1 = e0[0 := (fst (e0 ! 0), left)];
          e2 = e1[1 := (fst (e1 ! 1), right)]
      in n\<lparr>entry := e2\<rparr>)"

text \<open>\<^verbatim>\<open>LeafNode(sibling, _cnt, _level)\<close>\<close>

definition LeafNode_split_ctor :: "Node \<Rightarrow> ptr \<Rightarrow> nat \<Rightarrow> nat \<Rightarrow> Node" where
  "LeafNode_split_ctor raw sibling count lvl = Node_init raw sibling count lvl"

subsection \<open>Internal nodes\<close>

definition InternalNode_is_full :: "Node \<Rightarrow> bool" where
  "InternalNode_is_full n = (cnt n = cardinality - 1)"

text \<open>The loop of \<^verbatim>\<open>InternalNode::lowerbound_linear\<close>, from index \<open>i\<close> on.\<close>

function InternalNode_lowerbound_loop :: "Node \<Rightarrow> key_t \<Rightarrow> nat \<Rightarrow> nat" where
  "InternalNode_lowerbound_loop n key i =
     (if i < cnt n
      then (if fst (entry n ! i) \<ge> key then i
            else InternalNode_lowerbound_loop n key (Suc i))
      else cnt n)"
  by pat_completeness auto
termination
  by (relation "measure (\<lambda>(n, key, i). cnt n - i)") auto

declare InternalNode_lowerbound_loop.simps [simp del]

definition InternalNode_lowerbound_linear :: "Node \<Rightarrow> key_t \<Rightarrow> nat" where
  "InternalNode_lowerbound_linear n key = InternalNode_lowerbound_loop n key 0"

definition InternalNode_find_lowerbound :: "Node \<Rightarrow> key_t \<Rightarrow> nat" where
  "InternalNode_find_lowerbound n key = InternalNode_lowerbound_linear n key"

definition scan_node :: "Node \<Rightarrow> key_t \<Rightarrow> ptr" where
  "scan_node n key =
     (if sibling_ptr n \<noteq> nullptr \<and> high_key n < key then sibling_ptr n
      else snd (entry n ! InternalNode_find_lowerbound n key))"

definition leftmost_ptr :: "Node \<Rightarrow> ptr" where
  "leftmost_ptr n = snd (entry n ! 0)"

definition InternalNode_insert :: "Node \<Rightarrow> key_t \<Rightarrow> ptr \<Rightarrow> Node" where
  "InternalNode_insert n key val =
     (let pos = InternalNode_find_lowerbound n key;
          e1 = memmove (entry n) (pos + 1) pos (cnt n - pos + 1);
          e2 = e1[pos := (key, snd (e1 ! pos))];
          e3 = e2[pos := (fst (e2 ! pos), val)];
          e4 = e3[pos := (fst (e3 ! pos), snd (e3 ! (pos + 1))),
                  pos + 1 := (fst (e3 ! (pos + 1)), snd (e3 ! pos))];
          n1 = n\<lparr>entry := e4, cnt := cnt n + 1\<rparr>
      in if key > high_key n1 then n1\<lparr>high_key := key\<rparr> else n1)"

text \<open>
  \<^verbatim>\<open>InternalNode::split\<close>. \<open>raw\<close> is the storage of the new node and \<open>new_node\<close> its
  address. The result is the split key, the new node and the node itself afterwards.
\<close>

definition InternalNode_split :: "Node \<Rightarrow> Node \<Rightarrow> ptr \<Rightarrow> key_t \<times> Node \<times> Node" where
  "InternalNode_split n raw new_node =
     (let half = cnt n - cnt n div 2;
          split_key = fst (entry n ! half);
          new_cnt = cnt n - half - 1;
          nn = InternalNode_split_ctor raw (sibling_ptr n) new_cnt (snd (entry n ! half))
                 (level n) (high_key n);
          nn1 = nn\<lparr>entry := memcpy (entry nn) 0 (entry n) (half + 1) (new_cnt + 1)\<rparr>;
          n1 = n\<lparr>sibling_ptr := new_node, high_key := fst (entry n ! half), cnt := half\<rparr>
      in (split_key, nn1, n1))"

subsection \<open>Leaf nodes\<close>

definition LeafNode_is_full :: "Node \<Rightarrow> bool" where
  "LeafNode_is_full n = (cnt n = cardinality)"

function LeafNode_lowerbound_loop :: "Node \<Rightarrow> key_t \<Rightarrow> nat \<Rightarrow> nat" where
  "LeafNode_lowerbound_loop n key i =
     (if i < cnt n
      then (if key \<le> fst (entry n ! i) then i
            else LeafNode_lowerbound_loop n key (Suc i))
      else cnt n)"
  by pat_completeness auto
termination
  by (relation "measure (\<lambda>(n, key, i). cnt n - i)") auto

declare LeafNode_lowerbound_loop.simps [simp del]

definition LeafNode_lowerbound_linear :: "Node \<Rightarrow> key_t \<Rightarrow> nat" where
  "LeafNode_lowerbound_linear n key = LeafNode_lowerbound_loop n key 0"

definition LeafNode_find_lowerbound :: "Node \<Rightarrow> key_t \<Rightarrow> nat" where
  "LeafNode_find_lowerbound n key = LeafNode_lowerbound_linear n key"

function find_loop :: "Node \<Rightarrow> key_t \<Rightarrow> nat \<Rightarrow> u64" where
  "find_loop n key i =
     (if i < cnt n
      then (if key = fst (entry n ! i) then snd (entry n ! i)
            else find_loop n key (Suc i))
      else 0)"
  by pat_completeness auto
termination
  by (relation "measure (\<lambda>(n, key, i). cnt n - i)") auto

declare find_loop.simps [simp del]

definition find_linear :: "Node \<Rightarrow> key_t \<Rightarrow> u64" where
  "find_linear n key = find_loop n key 0"

definition LeafNode_find :: "Node \<Rightarrow> key_t \<Rightarrow> u64" where
  "LeafNode_find n key = find_linear n key"

text \<open>\<^verbatim>\<open>find_pos_linear\<close> returns \<^verbatim>\<open>-1\<close> when no entry has the key: \<open>None\<close> here.\<close>

function find_pos_loop :: "Node \<Rightarrow> key_t \<Rightarrow> nat \<Rightarrow> nat option" where
  "find_pos_loop n key i =
     (if i < cnt n
      then (if key = fst (entry n ! i) then Some i
            else find_pos_loop n key (Suc i))
      else None)"
  by pat_completeness auto
termination
  by (relation "measure (\<lambda>(n, key, i). cnt n - i)") auto

declare find_pos_loop.simps [simp del]

definition find_pos_linear :: "Node \<Rightarrow> key_t \<Rightarrow> nat option" where
  "find_pos_linear n key = find_pos_loop n key 0"

text \<open>\<^verbatim>\<open>update_linear\<close>: the result and the leaf afterwards.\<close>

function update_loop :: "Node \<Rightarrow> key_t \<Rightarrow> u64 \<Rightarrow> nat \<Rightarrow> bool \<times> Node" where
  "update_loop n key val i =
     (if i < cnt n
      then (if key = fst (entry n ! i)
            then (True, n\<lparr>entry := (entry n)[i := (fst (entry n ! i), val)]\<rparr>)
            else update_loop n key val (Suc i))
      else (False, n))"
  by pat_completeness auto
termination
  by (relation "measure (\<lambda>(n, key, val, i). cnt n - i)") auto

declare update_loop.simps [simp del]

definition update_linear :: "Node \<Rightarrow> key_t \<Rightarrow> u64 \<Rightarrow> bool \<times> Node" where
  "update_linear n key val = update_loop n key val 0"

definition LeafNode_update :: "Node \<Rightarrow> key_t \<Rightarrow> u64 \<Rightarrow> bool \<times> Node" where
  "LeafNode_update n key val = update_linear n key val"

definition LeafNode_insert :: "Node \<Rightarrow> key_t \<Rightarrow> u64 \<Rightarrow> Node" where
  "LeafNode_insert n key val =
     (let n1 = (if cnt n \<noteq> 0
                then (let pos = LeafNode_find_lowerbound n key;
                          e1 = memmove (entry n) (pos + 1) pos (cnt n - pos);
                          e2 = e1[pos := (key, snd (e1 ! pos))];
                          e3 = e2[pos := (fst (e2 ! pos), val)]
                      in n\<lparr>entry := e3\<rparr>)
                else (let e1 = (entry n)[0 := (key, snd (entry n ! 0))];
                          e2 = e1[0 := (fst (e1 ! 0), val)]
                      in n\<lparr>entry := e2\<rparr>));
          n2 = n1\<lparr>cnt := cnt n1 + 1\<rparr>
      in if key > high_key n2 then n2\<lparr>high_key := key\<rparr> else n2)"

text \<open>
  \<^verbatim>\<open>LeafNode::split\<close>, with the storage and the address of the new leaf as for
  \<open>InternalNode_split\<close>.
\<close>

definition LeafNode_split :: "Node \<Rightarrow> Node \<Rightarrow> ptr \<Rightarrow> key_t \<times> Node \<times> Node" where
  "LeafNode_split n raw new_leaf =
     (let half = cnt n div 2;
          new_cnt = cnt n - half;
          split_key = fst (entry n ! (half - 1));
          nl = LeafNode_split_ctor raw (sibling_ptr n) new_cnt (level n);
          nl1 = nl\<lparr>high_key := high_key n\<rparr>;
          nl2 = nl1\<lparr>entry := memcpy (entry nl1) 0 (entry n) half new_cnt\<rparr>;
          n1 = n\<lparr>sibling_ptr := new_leaf, high_key := fst (entry n ! (half - 1)), cnt := half\<rparr>
      in (split_key, nl2, n1))"

text \<open>\<^verbatim>\<open>LeafNode::remove\<close>: the result and the leaf afterwards.\<close>

definition LeafNode_remove :: "Node \<Rightarrow> key_t \<Rightarrow> bool \<times> Node" where
  "LeafNode_remove n key =
     (if cnt n \<noteq> 0
      then (case find_pos_linear n key of
              None \<Rightarrow> (False, n)
            | Some pos \<Rightarrow>
                (True, n\<lparr>entry := memmove (entry n) pos (pos + 1) (cnt n - pos - 1),
                         cnt := cnt n - 1\<rparr>))
      else (False, n))"


section \<open>The tree (blinktree.h)\<close>

text \<open>
  The store maps the addresses of the nodes constructed so far to their contents.
  \<^verbatim>\<open>operator new\<close> belongs to the C++ runtime, and the tree never frees a node: the
  allocator hands out the addresses \<open>1, 2, ...\<close> in turn and throws
  \<^verbatim>\<open>std::bad_alloc\<close> once the 64-bit address space is used up. \<open>storage a\<close> is the
  content of the storage at \<open>a\<close> before a constructor runs on it.
\<close>

record BLinkTree =
  root :: ptr
  heap :: "(ptr \<times> Node) list"
  brk :: ptr
  storage :: "ptr \<Rightarrow> Node"

datatype error = segfault | bad_alloc | tie

text \<open>
  A function of the tree returns \<open>None\<close> when it never returns, \<open>Some (Inl e)\<close> when it
  dereferences a pointer to no node or cannot allocate, and \<open>Some (Inr r)\<close> when it
  returns \<open>r\<close>. The third error is no event of the program: see \<open>tie_rule\<close> below.
\<close>

definition load :: "BLinkTree \<Rightarrow> ptr \<Rightarrow> Node option" where
  "load t p = (if p = nullptr then None else map_of (heap t) p)"

definition store :: "BLinkTree \<Rightarrow> ptr \<Rightarrow> Node \<Rightarrow> BLinkTree" where
  "store t p n = t\<lparr>heap := AList.update p n (heap t)\<rparr>"

definition operator_new :: "BLinkTree \<Rightarrow> error + (ptr \<times> Node \<times> BLinkTree)" where
  "operator_new t =
     (if brk t = 0 then Inl bad_alloc
      else Inr (brk t, storage t (brk t), t\<lparr>brk := brk t + 1\<rparr>))"

definition empty_memory :: "(ptr \<Rightarrow> Node) \<Rightarrow> BLinkTree" where
  "empty_memory st = \<lparr>root = nullptr, heap = [], brk = 1, storage = st\<rparr>"

text \<open>\<^verbatim>\<open>BLinkTree() { root = static_cast<Node*>(new InternalNode<key_t>()); }\<close>\<close>

definition BLinkTree_ctor :: "BLinkTree \<Rightarrow> error + BLinkTree" where
  "BLinkTree_ctor m =
     (case operator_new m of
        Inl e \<Rightarrow> Inl e
      | Inr (p, raw, m1) \<Rightarrow> Inr ((store m1 p (InternalNode_default raw))\<lparr>root := p\<rparr>))"

text \<open>\<^verbatim>\<open>int height() { return root->level; }\<close>\<close>

definition BLinkTree_height :: "BLinkTree \<Rightarrow> error + int" where
  "BLinkTree_height t =
     (case load t (root t) of
        None \<Rightarrow> Inl segfault
      | Some r \<Rightarrow> Inr (int (level r)))"

subsection \<open>Descent\<close>

text \<open>
  The loops that follow \<^verbatim>\<open>sibling_ptr\<close> while \<^verbatim>\<open>high_key < key\<close>: the second loop
  of \<^verbatim>\<open>traverse_to_leafnode\<close>, the loop on \<^verbatim>\<open>parent\<close> in
  \<^verbatim>\<open>backtrack_insertion_split_key\<close> and the second loop of
  \<^verbatim>\<open>update_splitted_root\<close>. The result is the node reached, its version, and whether
  the loop left through one of its \<^verbatim>\<open>goto\<close>s.
\<close>

partial_function (option) move_right ::
  "BLinkTree \<Rightarrow> key_t \<Rightarrow> ptr \<Rightarrow> u64 \<Rightarrow> (error + ptr \<times> u64 \<times> bool) option" where
  "move_right t key node vstart =
     (case load t node of
        None \<Rightarrow> Some (Inl segfault)
      | Some n \<Rightarrow>
          if sibling_ptr n \<noteq> nullptr \<and> high_key n < key
          then (case load t (sibling_ptr n) of
                  None \<Rightarrow> Some (Inl segfault)
                | Some s \<Rightarrow>
                    if snd (try_readlock s False) then Some (Inr (node, vstart, True))
                    else if snd (get_version n False) \<or> vstart \<noteq> fst (get_version n False)
                    then Some (Inr (node, vstart, True))
                    else move_right t key (sibling_ptr n) (fst (try_readlock s False)))
          else Some (Inr (node, vstart, False)))"

declare move_right.simps [code]

text \<open>
  The first loop of \<^verbatim>\<open>traverse_to_leafnode\<close>. \<open>None\<close> in the result stands for
  \<^verbatim>\<open>goto restart\<close>.
\<close>

partial_function (option) traverse_internal ::
  "BLinkTree \<Rightarrow> key_t \<Rightarrow> ptr \<Rightarrow> u64 \<Rightarrow> ptr list \<Rightarrow> (error + (ptr \<times> u64 \<times> ptr list) option) option"
  where
  "traverse_internal t key cur cur_vstart stacks =
     (case load t cur of
        None \<Rightarrow> Some (Inl segfault)
      | Some c \<Rightarrow>
          if level c \<noteq> 0
          then (case load t (scan_node c key) of
                  None \<Rightarrow> Some (Inl segfault)
                | Some ch \<Rightarrow>
                    if snd (try_readlock ch False) then Some (Inr None)
                    else if snd (get_version c False) \<or> cur_vstart \<noteq> fst (get_version c False)
                    then Some (Inr None)
                    else traverse_internal t key (scan_node c key) (fst (try_readlock ch False))
                           (if scan_node c key \<noteq> sibling_ptr c then stacks @ [cur] else stacks))
          else Some (Inr (Some (cur, cur_vstart, stacks))))"

declare traverse_internal.simps [code]

text \<open>\<^verbatim>\<open>traverse_to_leafnode\<close>: the leaf, its version and the stack.\<close>

partial_function (option) traverse_to_leafnode ::
  "BLinkTree \<Rightarrow> key_t \<Rightarrow> (error + ptr \<times> u64 \<times> ptr list) option" where
  "traverse_to_leafnode t key =
     (case load t (root t) of
        None \<Rightarrow> Some (Inl segfault)
      | Some c \<Rightarrow>
          if snd (try_readlock c False) then traverse_to_leafnode t key
          else (case traverse_internal t key (root t) (fst (try_readlock c False)) [] of
                  None \<Rightarrow> None
                | Some (Inl e) \<Rightarrow> Some (Inl e)
                | Some (Inr None) \<Rightarrow> traverse_to_leafnode t key
                | Some (Inr (Some (cur, cur_vstart, stacks))) \<Rightarrow>
                    (case move_right t key cur cur_vstart of
                       None \<Rightarrow> None
                     | Some (Inl e) \<Rightarrow> Some (Inl e)
                     | Some (Inr (leaf, leaf_vstart, restart)) \<Rightarrow>
                         if restart then traverse_to_leafnode t key
                         else Some (Inr (leaf, leaf_vstart, stacks)))))"

declare traverse_to_leafnode.simps [code]

subsection \<open>Lookup, update and remove\<close>

partial_function (option) BLinkTree_lookup :: "BLinkTree \<Rightarrow> key_t \<Rightarrow> (error + u64) option" where
  "BLinkTree_lookup t key =
     (case traverse_to_leafnode t key of
        None \<Rightarrow> None
      | Some (Inl e) \<Rightarrow> Some (Inl e)
      | Some (Inr (leaf, leaf_vstart, stack)) \<Rightarrow>
          (case load t leaf of
             None \<Rightarrow> Some (Inl segfault)
           | Some l \<Rightarrow>
               if snd (get_version l False) \<or> leaf_vstart \<noteq> fst (get_version l False)
               then BLinkTree_lookup t key
               else Some (Inr (LeafNode_find l key))))"

declare BLinkTree_lookup.simps [code]

partial_function (option) BLinkTree_update ::
  "BLinkTree \<Rightarrow> key_t \<Rightarrow> u64 \<Rightarrow> (error + bool \<times> BLinkTree) option" where
  "BLinkTree_update t key val =
     (case traverse_to_leafnode t key of
        None \<Rightarrow> None
      | Some (Inl e) \<Rightarrow> Some (Inl e)
      | Some (Inr (leaf, leaf_vstart, stack)) \<Rightarrow>
          (case load t leaf of
             None \<Rightarrow> Some (Inl segfault)
           | Some l \<Rightarrow>
               if snd (try_upgrade_writelock l leaf_vstart False) then BLinkTree_update t key val
               else Some (Inr
                 (fst (LeafNode_update (fst (try_upgrade_writelock l leaf_vstart False)) key val),
                  store t leaf
                    (write_unlock
                      (snd (LeafNode_update (fst (try_upgrade_writelock l leaf_vstart False))
                              key val)))))))"

declare BLinkTree_update.simps [code]

partial_function (option) BLinkTree_remove ::
  "BLinkTree \<Rightarrow> key_t \<Rightarrow> (error + bool \<times> BLinkTree) option" where
  "BLinkTree_remove t key =
     (case traverse_to_leafnode t key of
        None \<Rightarrow> None
      | Some (Inl e) \<Rightarrow> Some (Inl e)
      | Some (Inr (leaf, leaf_vstart, stack)) \<Rightarrow>
          (case load t leaf of
             None \<Rightarrow> Some (Inl segfault)
           | Some l \<Rightarrow>
               if snd (try_upgrade_writelock l leaf_vstart False) then BLinkTree_remove t key
               else Some (Inr
                 (fst (LeafNode_remove (fst (try_upgrade_writelock l leaf_vstart False)) key),
                  store t leaf
                    (write_unlock
                      (snd (LeafNode_remove (fst (try_upgrade_writelock l leaf_vstart False))
                              key)))))))"

declare BLinkTree_remove.simps [code]

subsection \<open>Insert\<close>

definition modify :: "BLinkTree \<Rightarrow> ptr \<Rightarrow> (Node \<Rightarrow> Node) \<Rightarrow> error + BLinkTree" where
  "modify t p f =
     (case load t p of
        None \<Rightarrow> Inl segfault
      | Some n \<Rightarrow> Inr (store t p (f n)))"

text \<open>
  The head of \<^verbatim>\<open>backtrack_insertion_split_key\<close>:
  \<^verbatim>\<open>auto new_leaf = leaf->split(split_key);
  if (key <= split_key) leaf->insert(key, value); else new_leaf->insert(key, value);\<close>
  The result is the split key, the address of the new leaf and the store.
\<close>

definition split_leaf :: "BLinkTree \<Rightarrow> ptr \<Rightarrow> error + (key_t \<times> ptr \<times> BLinkTree)" where
  "split_leaf t leaf =
     (case operator_new t of
        Inl e \<Rightarrow> Inl e
      | Inr (new_leaf, raw, t1) \<Rightarrow>
          (case load t1 leaf of
             None \<Rightarrow> Inl segfault
           | Some l \<Rightarrow>
               (case LeafNode_split l raw new_leaf of
                  (split_key, nl, l1) \<Rightarrow>
                    Inr (split_key, new_leaf, store (store t1 new_leaf nl) leaf l1))))"

definition split_leaf_insert ::
  "BLinkTree \<Rightarrow> ptr \<Rightarrow> key_t \<Rightarrow> u64 \<Rightarrow> error + (key_t \<times> ptr \<times> BLinkTree)" where
  "split_leaf_insert t leaf key val =
     (case split_leaf t leaf of
        Inl e \<Rightarrow> Inl e
      | Inr (split_key, new_leaf, t1) \<Rightarrow>
          (case modify t1 (if key \<le> split_key then leaf else new_leaf)
                  (\<lambda>n. LeafNode_insert n key val) of
             Inl e \<Rightarrow> Inl e
           | Inr t2 \<Rightarrow> Inr (split_key, new_leaf, t2)))"

text \<open>
  The two implementations of the tree place a separator that equals the split key of
  its full parent differently: blinktree.h in \<^verbatim>\<open>node.h\<close> tests
  \<^verbatim>\<open>insert_key < split_key\<close> and puts it in the right half, the older blinktree.h tests
  \<^verbatim>\<open>split_key <= _split_key\<close> and puts it in the left half. \<open>Stop\<close> is neither: a run
  under it ends with the error \<open>tie\<close> at such a separator, and serves to say that a run
  meets none.
\<close>

datatype tie_rule = Right | Left | Stop

definition to_left :: "tie_rule \<Rightarrow> key_t \<Rightarrow> key_t \<Rightarrow> bool" where
  "to_left rule key split_key =
     (case rule of Right \<Rightarrow> key < split_key | Left \<Rightarrow> key \<le> split_key | Stop \<Rightarrow> key < split_key)"

text \<open>
  The statements that split a full internal node and insert the pending separator:
  \<^verbatim>\<open>auto new_node = node->split(split_key);
  if (key <= split_key) node->insert(key, value); else new_node->insert(key, value);\<close>
  (\<^verbatim>\<open>key < split_key\<close> in \<^verbatim>\<open>backtrack_insertion_split_key\<close>).
\<close>

definition split_internal :: "BLinkTree \<Rightarrow> ptr \<Rightarrow> error + (key_t \<times> ptr \<times> BLinkTree)" where
  "split_internal t node =
     (case operator_new t of
        Inl e \<Rightarrow> Inl e
      | Inr (new_node, raw, t1) \<Rightarrow>
          (case load t1 node of
             None \<Rightarrow> Inl segfault
           | Some n \<Rightarrow>
               (case InternalNode_split n raw new_node of
                  (split_key, nn, n1) \<Rightarrow>
                    Inr (split_key, new_node, store (store t1 new_node nn) node n1))))"

definition split_internal_insert ::
  "tie_rule \<Rightarrow> BLinkTree \<Rightarrow> ptr \<Rightarrow> key_t \<Rightarrow> ptr \<Rightarrow> error + (key_t \<times> ptr \<times> BLinkTree)"
  where
  "split_internal_insert rule t node key val =
     (case split_internal t node of
        Inl e \<Rightarrow> Inl e
      | Inr (split_key, new_node, t1) \<Rightarrow>
          if rule = Stop \<and> key = split_key then Inl tie
          else (case modify t1 (if to_left rule key split_key then node else new_node)
                       (\<lambda>n. InternalNode_insert n key val) of
                  Inl e \<Rightarrow> Inl e
                | Inr t2 \<Rightarrow> Inr (split_key, new_node, t2)))"

text \<open>
  \<^verbatim>\<open>auto new_root = new InternalNode<key_t>(split_key, left, right, nullptr,
  left->level + 1, right->high_key); root = static_cast<Node*>(new_root);
  left->write_unlock();\<close>
\<close>

definition grow_root :: "BLinkTree \<Rightarrow> key_t \<Rightarrow> ptr \<Rightarrow> ptr \<Rightarrow> error + BLinkTree" where
  "grow_root t split_key left right =
     (case load t left of
        None \<Rightarrow> Inl segfault
      | Some l \<Rightarrow>
          (case load t right of
             None \<Rightarrow> Inl segfault
           | Some r \<Rightarrow>
               (case operator_new t of
                  Inl e \<Rightarrow> Inl e
                | Inr (new_root, raw, t1) \<Rightarrow>
                    modify
                      ((store t1 new_root
                          (InternalNode_root_ctor raw split_key left right nullptr
                             (level l + 1) (high_key r)))\<lparr>root := new_root\<rparr>)
                      left write_unlock)))"

text \<open>\<^verbatim>\<open>node->insert(key, value); node->write_unlock();\<close>\<close>

definition insert_unlock :: "BLinkTree \<Rightarrow> ptr \<Rightarrow> key_t \<Rightarrow> ptr \<Rightarrow> error + BLinkTree" where
  "insert_unlock t node key val =
     modify t node (\<lambda>n. write_unlock (InternalNode_insert n key val))"

text \<open>
  The first loop of \<^verbatim>\<open>update_splitted_root\<close>, down to the level above \<open>prev\<close>; \<open>None\<close>
  in the result stands for \<^verbatim>\<open>goto restart\<close>.
\<close>

partial_function (option) descend_to_parent ::
  "BLinkTree \<Rightarrow> key_t \<Rightarrow> ptr \<Rightarrow> u64 \<Rightarrow> ptr \<Rightarrow> (error + (ptr \<times> u64) option) option" where
  "descend_to_parent t key cur cur_vstart prev =
     (case load t cur of
        None \<Rightarrow> Some (Inl segfault)
      | Some c \<Rightarrow>
          (case load t prev of
             None \<Rightarrow> Some (Inl segfault)
           | Some p \<Rightarrow>
               if level c \<noteq> level p + 1
               then (case load t (scan_node c key) of
                       None \<Rightarrow> Some (Inl segfault)
                     | Some ch \<Rightarrow>
                         if snd (try_readlock ch False) then Some (Inr None)
                         else if snd (get_version c False)
                                 \<or> cur_vstart \<noteq> fst (get_version c False)
                         then Some (Inr None)
                         else descend_to_parent t key (scan_node c key)
                                (fst (try_readlock ch False)) prev)
               else Some (Inr (Some (cur, cur_vstart)))))"

declare descend_to_parent.simps [code]

text \<open>
  \<^verbatim>\<open>update_splitted_root\<close> up to and including \<^verbatim>\<open>prev->write_unlock()\<close>: the store
  and the node that was locked. \<open>None\<close> in the result stands for \<^verbatim>\<open>goto restart\<close>.
\<close>

definition find_and_lock_parent ::
  "BLinkTree \<Rightarrow> key_t \<Rightarrow> ptr \<Rightarrow> (error + (BLinkTree \<times> ptr) option) option" where
  "find_and_lock_parent t key prev =
     (case load t (root t) of
        None \<Rightarrow> Some (Inl segfault)
      | Some c \<Rightarrow>
          if snd (try_readlock c False) then Some (Inr None)
          else (case descend_to_parent t key (root t) (fst (try_readlock c False)) prev of
                  None \<Rightarrow> None
                | Some (Inl e) \<Rightarrow> Some (Inl e)
                | Some (Inr None) \<Rightarrow> Some (Inr None)
                | Some (Inr (Some (cur, cur_vstart))) \<Rightarrow>
                    (case move_right t key cur cur_vstart of
                       None \<Rightarrow> None
                     | Some (Inl e) \<Rightarrow> Some (Inl e)
                     | Some (Inr (cur', cur_vstart', restart)) \<Rightarrow>
                         if restart then Some (Inr None)
                         else (case load t cur' of
                                 None \<Rightarrow> Some (Inl segfault)
                               | Some n \<Rightarrow>
                                   if snd (try_upgrade_writelock n cur_vstart' False)
                                   then Some (Inr None)
                                   else (case modify
                                                (store t cur'
                                                   (fst (try_upgrade_writelock n cur_vstart' False)))
                                                prev write_unlock of
                                           Inl e \<Rightarrow> Some (Inl e)
                                         | Inr t1 \<Rightarrow> Some (Inr (Some (t1, cur'))))))))"

partial_function (option) update_splitted_root ::
  "BLinkTree \<Rightarrow> key_t \<Rightarrow> ptr \<Rightarrow> ptr \<Rightarrow> (error + BLinkTree) option" where
  "update_splitted_root t key val prev =
     (case find_and_lock_parent t key prev of
        None \<Rightarrow> None
      | Some (Inl e) \<Rightarrow> Some (Inl e)
      | Some (Inr None) \<Rightarrow> update_splitted_root t key val prev
      | Some (Inr (Some (t1, node))) \<Rightarrow>
          (case load t1 node of
             None \<Rightarrow> Some (Inl segfault)
           | Some n \<Rightarrow>
               if \<not> InternalNode_is_full n then Some (insert_unlock t1 node key val)
               else (case split_internal_insert Left t1 node key val of
                       Inl e \<Rightarrow> Some (Inl e)
                     | Inr (split_key, new_node, t2) \<Rightarrow>
                         if node = root t2 then Some (grow_root t2 split_key node new_node)
                         else update_splitted_root t2 split_key new_node node)))"

declare update_splitted_root.simps [code]

text \<open>
  From the label \<^verbatim>\<open>parent_restart\<close> to the successful \<^verbatim>\<open>try_upgrade_writelock\<close>
  of the parent: the store and the parent that was locked. A \<^verbatim>\<open>goto parent_restart\<close>
  keeps the parent the loop has reached.
\<close>

partial_function (option) parent_restart ::
  "BLinkTree \<Rightarrow> ptr \<Rightarrow> key_t \<Rightarrow> (error + BLinkTree \<times> ptr) option" where
  "parent_restart t parent split_key =
     (case load t parent of
        None \<Rightarrow> Some (Inl segfault)
      | Some p \<Rightarrow>
          if snd (try_readlock p False) then parent_restart t parent split_key
          else (case move_right t split_key parent (fst (try_readlock p False)) of
                  None \<Rightarrow> None
                | Some (Inl e) \<Rightarrow> Some (Inl e)
                | Some (Inr (parent', parent_vstart, restart)) \<Rightarrow>
                    if restart then parent_restart t parent' split_key
                    else (case load t parent' of
                            None \<Rightarrow> Some (Inl segfault)
                          | Some p' \<Rightarrow>
                              if snd (try_upgrade_writelock p' parent_vstart False)
                              then parent_restart t parent' split_key
                              else Some (Inr
                                (store t parent'
                                   (fst (try_upgrade_writelock p' parent_vstart False)),
                                 parent')))))"

declare parent_restart.simps [code]

text \<open>
  The loop \<^verbatim>\<open>while (stack_idx > -1)\<close> of \<^verbatim>\<open>backtrack_insertion_split_key\<close>, entered
  with a stack that is not empty.
\<close>

partial_function (option) backtrack_loop ::
  "tie_rule \<Rightarrow> BLinkTree \<Rightarrow> ptr list \<Rightarrow> nat \<Rightarrow> key_t \<Rightarrow> ptr \<Rightarrow> ptr \<Rightarrow> (error + BLinkTree) option"
  where
  "backtrack_loop rule t stack stack_idx split_key left_node right_node =
     (case parent_restart t (stack ! stack_idx) split_key of
        None \<Rightarrow> None
      | Some (Inl e) \<Rightarrow> Some (Inl e)
      | Some (Inr (t1, parent)) \<Rightarrow>
          (case modify t1 left_node write_unlock of
             Inl e \<Rightarrow> Some (Inl e)
           | Inr t2 \<Rightarrow>
               (case load t2 parent of
                  None \<Rightarrow> Some (Inl segfault)
                | Some p \<Rightarrow>
                    if \<not> InternalNode_is_full p
                    then Some (insert_unlock t2 parent split_key right_node)
                    else (case split_internal_insert rule t2 parent split_key right_node of
                            Inl e \<Rightarrow> Some (Inl e)
                          | Inr (split_key', new_parent, t3) \<Rightarrow>
                              if stack_idx \<noteq> 0
                              then backtrack_loop rule t3 stack (stack_idx - 1) split_key'
                                     parent new_parent
                              else if parent = root t3
                              then Some (grow_root t3 split_key' parent new_parent)
                              else update_splitted_root t3 split_key' new_parent parent))))"

declare backtrack_loop.simps [code]

definition backtrack_insertion_split_key ::
  "tie_rule \<Rightarrow> BLinkTree \<Rightarrow> ptr list \<Rightarrow> ptr \<Rightarrow> key_t \<Rightarrow> u64 \<Rightarrow> (error + BLinkTree) option" where
  "backtrack_insertion_split_key rule t stack leaf key val =
     (case split_leaf_insert t leaf key val of
        Inl e \<Rightarrow> Some (Inl e)
      | Inr (split_key, new_leaf, t1) \<Rightarrow>
          if stack = []
          then (if leaf = root t1 then Some (grow_root t1 split_key leaf new_leaf)
                else update_splitted_root t1 split_key new_leaf leaf)
          else backtrack_loop rule t1 stack (length stack - 1) split_key leaf new_leaf)"

text \<open>
  \<^verbatim>\<open>BLinkTree::insert\<close>, for either implementation: the older blinktree.h has the
  statements of \<^verbatim>\<open>traverse_to_leafnode\<close>, \<^verbatim>\<open>backtrack_insertion_split_key\<close> and
  \<^verbatim>\<open>update_splitted_root\<close> (its \<^verbatim>\<open>insert_key\<close>) in the body of \<^verbatim>\<open>insert\<close>.
\<close>

partial_function (option) insert_with ::
  "tie_rule \<Rightarrow> BLinkTree \<Rightarrow> key_t \<Rightarrow> u64 \<Rightarrow> (error + BLinkTree) option" where
  "insert_with rule t key val =
     (case traverse_to_leafnode t key of
        None \<Rightarrow> None
      | Some (Inl e) \<Rightarrow> Some (Inl e)
      | Some (Inr (leaf, leaf_vstart, stack)) \<Rightarrow>
          (case load t leaf of
             None \<Rightarrow> Some (Inl segfault)
           | Some l \<Rightarrow>
               if snd (try_upgrade_writelock l leaf_vstart False) then insert_with rule t key val
               else if \<not> LeafNode_is_full (fst (try_upgrade_writelock l leaf_vstart False))
               then Some (Inr (store t leaf
                      (write_unlock
                         (LeafNode_insert (fst (try_upgrade_writelock l leaf_vstart False))
                            key val))))
               else backtrack_insertion_split_key rule
                      (store t leaf (fst (try_upgrade_writelock l leaf_vstart False)))
                      stack leaf key val))"

declare insert_with.simps [code]

text \<open>\<^verbatim>\<open>BLinkTree::insert\<close> of blinktree.h in \<^verbatim>\<open>node.h\<close>.\<close>

definition BLinkTree_insert :: "BLinkTree \<Rightarrow> key_t \<Rightarrow> u64 \<Rightarrow> (error + BLinkTree) option" where
  "BLinkTree_insert t key val = insert_with Right t key val"

section \<open>Notions used in the statements\<close>

text \<open>
  The live part of a node: its first \<open>cnt\<close> keys, the \<open>cnt + 1\<close> child pointers of an
  internal node, and the first \<open>cnt\<close> entries of a leaf.
\<close>

definition keys :: "Node \<Rightarrow> key_t list" where
  "keys n = map fst (take (cnt n) (entry n))"

definition children :: "Node \<Rightarrow> ptr list" where
  "children n = map snd (take (cnt n + 1) (entry n))"

definition entries :: "Node \<Rightarrow> (key_t \<times> u64) list" where
  "entries n = take (cnt n) (entry n)"

subsection \<open>Concrete nodes and trees\<close>

definition junk :: "(key_t \<times> u64) list" where
  "junk = replicate 27 (0, 0)"

definition example_internal :: Node where
  "example_internal =
     \<lparr>lock = 0, sibling_ptr = 0, cnt = 2, level = 1, high_key = 20,
      entry = (10, 101) # (20, 102) # (0, 103) # junk\<rparr>"

definition example_leaf :: Node where
  "example_leaf =
     \<lparr>lock = 0, sibling_ptr = 0, cnt = 3, level = 0, high_key = 20,
      entry = (10, 1) # (20, 2) # (20, 3) # junk\<rparr>"

text \<open>
  The allocator is ahead of every node: an address that holds a node is below \<open>brk\<close>,
  unless the address space is used up.
\<close>

definition alloc_ok :: "BLinkTree \<Rightarrow> bool" where
  "alloc_ok t \<longleftrightarrow> (\<forall>p n. load t p = Some n \<longrightarrow> brk t = 0 \<or> p < brk t)"

definition zero_node :: Node where
  "zero_node =
     \<lparr>lock = 0, sibling_ptr = 0, cnt = 0, level = 0, high_key = 0, entry = replicate 30 (0, 0)\<rparr>"

definition full_entries :: "(key_t \<times> u64) list" where
  "full_entries = map (\<lambda>i. (of_nat (i + 1), of_nat (100 + i))) [0..<30]"

definition full_leaf :: Node where
  "full_leaf =
     \<lparr>lock = 2, sibling_ptr = 0, cnt = 30, level = 0, high_key = 30, entry = full_entries\<rparr>"

definition full_internal :: Node where
  "full_internal =
     \<lparr>lock = 2, sibling_ptr = 0, cnt = 29, level = 1, high_key = 29, entry = full_entries\<rparr>"

definition full_leaf_tree :: BLinkTree where
  "full_leaf_tree = \<lparr>root = 1, heap = [(1, full_leaf)], brk = 2, storage = (\<lambda>a. zero_node)\<rparr>"

section \<open>The shape of a tree\<close>

text \<open>
  A key range has a lower bound that it excludes and an upper bound that it includes;
  \<open>None\<close> is no bound.
\<close>

type_synonym bound = "key_t option"

definition gt_bound :: "bound \<Rightarrow> key_t \<Rightarrow> bool" where
  "gt_bound lo k = (case lo of None \<Rightarrow> True | Some l \<Rightarrow> l < k)"

definition ge_bound :: "bound \<Rightarrow> key_t \<Rightarrow> bool" where
  "ge_bound lo k = (case lo of None \<Rightarrow> True | Some l \<Rightarrow> l \<le> k)"

definition le_bound :: "key_t \<Rightarrow> bound \<Rightarrow> bool" where
  "le_bound k hi = (case hi of None \<Rightarrow> True | Some h \<Rightarrow> k \<le> h)"

text \<open>The order of lower bounds, and a lower bound that is not above an upper bound.\<close>

definition lower_le :: "bound \<Rightarrow> bound \<Rightarrow> bool" where
  "lower_le a b = (case a of None \<Rightarrow> True | Some x \<Rightarrow> (case b of None \<Rightarrow> False | Some y \<Rightarrow> x \<le> y))"

definition bound_le :: "bound \<Rightarrow> bound \<Rightarrow> bool" where
  "bound_le lo hi = (case lo of None \<Rightarrow> True | Some l \<Rightarrow> le_bound l hi)"

text \<open>
  A place in a sibling chain: the address of a node, the lower bound the chain gives it
  (the high key of the node before it) and its upper bound (its own high key, or none
  for the last node of the chain).
\<close>

datatype place = Place (addr: ptr) (lower: bound) (upper: bound)

definition covers :: "place \<Rightarrow> key_t \<Rightarrow> bool" where
  "covers d k \<longleftrightarrow> gt_bound (lower d) k \<and> le_bound k (upper d)"

text \<open>
  What the node at a place looks like: \<open>X\<close> is the set of the nodes that are
  write-locked, \<open>nxt\<close> the address of the place that follows in the chain.
\<close>

definition node_ok :: "ptr set \<Rightarrow> nat \<Rightarrow> place \<Rightarrow> ptr \<Rightarrow> Node \<Rightarrow> bool" where
  "node_ok X lvl d nxt n \<longleftrightarrow>
     level n = lvl \<and> length (entry n) = cardinality \<and>
     (if lvl = 0 then cnt n \<le> cardinality else cnt n < cardinality) \<and>
     sibling_ptr n = nxt \<and> (nxt = nullptr \<longleftrightarrow> upper d = None) \<and>
     (nxt \<noteq> nullptr \<longrightarrow> upper d = Some (high_key n)) \<and>
     (is_locked (lock n) \<longleftrightarrow> addr d \<in> X) \<and> \<not> is_obsolete (lock n) \<and>
     sorted (keys n) \<and> (\<forall>k \<in> set (keys n). ge_bound (lower d) k \<and> le_bound k (upper d)) \<and>
     bound_le (lower d) (upper d)"

definition node_rel :: "BLinkTree \<Rightarrow> ptr set \<Rightarrow> nat \<Rightarrow> place \<Rightarrow> ptr \<Rightarrow> bool" where
  "node_rel t X lvl d nxt \<longleftrightarrow> (\<exists>n. load t (addr d) = Some n \<and> node_ok X lvl d nxt n)"

text \<open>
  A segment of a chain that leads to the address \<open>nxt\<close>, where the lower bound is \<open>b\<close>.
\<close>

fun seg :: "BLinkTree \<Rightarrow> ptr set \<Rightarrow> nat \<Rightarrow> place list \<Rightarrow> ptr \<Rightarrow> bound \<Rightarrow> bool" where
  "seg t X lvl [] nxt b = True"
| "seg t X lvl [d] nxt b = (node_rel t X lvl d nxt \<and> upper d = b)"
| "seg t X lvl (d # e # ds) nxt b =
     (node_rel t X lvl d (addr e) \<and> upper d = lower e \<and> seg t X lvl (e # ds) nxt b)"

definition chain :: "BLinkTree \<Rightarrow> ptr set \<Rightarrow> nat \<Rightarrow> place list \<Rightarrow> bool" where
  "chain t X lvl c \<longleftrightarrow>
     c \<noteq> [] \<and> seg t X lvl c nullptr None \<and> lower (hd c) = None \<and> distinct (map addr c)"

text \<open>
  The children of an internal node with lower bound \<open>lo\<close> are places of the chain
  below: the leftmost with the lower bound \<open>lo\<close>, the child after a key with that key.
\<close>

definition kids_ok :: "place list \<Rightarrow> bound \<Rightarrow> Node \<Rightarrow> bool" where
  "kids_ok below lo n \<longleftrightarrow>
     list_all2 (\<lambda>c l. \<exists>h. Place c l h \<in> set below) (children n) (lo # map Some (keys n))"

text \<open>
  The shape \<open>A\<close> of a tree lists its chains, the leaves first. The root is the first
  node of the topmost chain.
\<close>

definition shape :: "BLinkTree \<Rightarrow> ptr set \<Rightarrow> place list list \<Rightarrow> bool" where
  "shape t X A \<longleftrightarrow>
     A \<noteq> [] \<and> (\<forall>l < length A. chain t X l (A ! l)) \<and>
     (\<forall>l. Suc l < length A \<longrightarrow>
        (\<forall>d \<in> set (A ! Suc l). \<exists>n. load t (addr d) = Some n \<and> kids_ok (A ! l) (lower d) n)) \<and>
     root t = addr (hd (last A)) \<and> alloc_ok t \<and>
     (\<forall>a. length (entry (storage t a)) = cardinality)"

text \<open>Between two operations no node is locked and the root has no sibling.\<close>

definition quiescent :: "BLinkTree \<Rightarrow> place list list \<Rightarrow> bool" where
  "quiescent t A \<longleftrightarrow> shape t {} A \<and> length (last A) = 1"

definition new_tree :: "(ptr \<Rightarrow> Node) \<Rightarrow> BLinkTree" where
  "new_tree st = (case BLinkTree_ctor (empty_memory st) of Inr t \<Rightarrow> t | Inl e \<Rightarrow> empty_memory st)"

definition nxt_addr :: "place list \<Rightarrow> ptr \<Rightarrow> ptr" where
  "nxt_addr ds nxt = (case ds of [] \<Rightarrow> nxt | e # _ \<Rightarrow> addr e)"

definition nxt_lower :: "place list \<Rightarrow> bound \<Rightarrow> bound" where
  "nxt_lower ds b = (case ds of [] \<Rightarrow> b | e # _ \<Rightarrow> lower e)"

definition descent :: "place list list \<Rightarrow> key_t \<Rightarrow> nat \<Rightarrow> place list \<Rightarrow> place \<Rightarrow> bool" where
  "descent A k l path leaf \<longleftrightarrow>
     length path = l \<and> (\<forall>i < l. path ! i \<in> set (A ! (l - i)) \<and> covers (path ! i) k) \<and>
     leaf \<in> set (A ! 0) \<and> gt_bound (lower leaf) k \<and>
     successively lower_le (map lower (path @ [leaf]))"

definition route :: "place list list \<Rightarrow> key_t \<Rightarrow> place list \<Rightarrow> place \<Rightarrow> bool" where
  "route A k path leaf \<longleftrightarrow>
     length path = length A - 1 \<and>
     (\<forall>i < length path. path ! i \<in> set (A ! (length A - 1 - i)) \<and> covers (path ! i) k) \<and>
     leaf \<in> set (A ! 0) \<and> covers leaf k \<and>
     successively lower_le (map lower (path @ [leaf]))"

text \<open>The leaf that covers the key \<open>k\<close> answers \<open>v\<close>.\<close>

definition holds :: "BLinkTree \<Rightarrow> place list list \<Rightarrow> key_t \<Rightarrow> u64 \<Rightarrow> bool" where
  "holds t A k v \<longleftrightarrow>
     (\<exists>leaf m. leaf \<in> set (A ! 0) \<and> covers leaf k \<and> load t (addr leaf) = Some m \<and>
        LeafNode_find m k = v)"

text \<open>
  How an \<^verbatim>\<open>insert\<close> of \<open>(k, v)\<close> may end: out of memory, or with a tree of some shape
  where \<open>k\<close> has the value \<open>v\<close>; under the rule \<open>Stop\<close> also at a tie.
\<close>

definition outcome :: "tie_rule \<Rightarrow> key_t \<Rightarrow> u64 \<Rightarrow> error + BLinkTree \<Rightarrow> bool" where
  "outcome rule k v r \<longleftrightarrow>
     r = Inl bad_alloc \<or> (rule = Stop \<and> r = Inl tie) \<or>
     (\<exists>t' A'. r = Inr t' \<and> quiescent t' A' \<and> holds t' A' k v)"

section \<open>The states a single thread reaches\<close>

text \<open>
  The tree the constructor returns on storage whose entry arrays have the size of the
  class, and every tree an \<^verbatim>\<open>insert\<close>, \<^verbatim>\<open>update\<close> or \<^verbatim>\<open>remove\<close> returns from one;
  \<^verbatim>\<open>lookup\<close> and \<^verbatim>\<open>height\<close> write nothing.
\<close>

inductive reachable :: "BLinkTree \<Rightarrow> bool" where
  new: "\<forall>a. length (entry (st a)) = cardinality \<Longrightarrow> reachable (new_tree st)"
| insert: "reachable t \<Longrightarrow> BLinkTree_insert t k v = Some (Inr t') \<Longrightarrow> reachable t'"
| update: "reachable t \<Longrightarrow> BLinkTree_update t k v = Some (Inr (b, t')) \<Longrightarrow> reachable t'"
| remove: "reachable t \<Longrightarrow> BLinkTree_remove t k = Some (Inr (b, t')) \<Longrightarrow> reachable t'"

section \<open>Basic facts\<close>

lemma cardinality_eq: "cardinality = 30"
  by (simp add: cardinality_def PAGE_SIZE_def sizeof_Node_def sizeof_key_t_def sizeof_Entry_def)

subsection \<open>The linear scans\<close>

lemma LeafNode_lowerbound_loop_hit:
  "i < cnt n \<Longrightarrow> key \<le> fst (entry n ! i) \<Longrightarrow> LeafNode_lowerbound_loop n key i = i"
  by (subst LeafNode_lowerbound_loop.simps) simp

lemma LeafNode_lowerbound_loop_next:
  "i < cnt n \<Longrightarrow> \<not> key \<le> fst (entry n ! i) \<Longrightarrow>
   LeafNode_lowerbound_loop n key i = LeafNode_lowerbound_loop n key (Suc i)"
  by (subst LeafNode_lowerbound_loop.simps) simp

lemma LeafNode_lowerbound_loop_end:
  "\<not> i < cnt n \<Longrightarrow> LeafNode_lowerbound_loop n key i = cnt n"
  by (subst LeafNode_lowerbound_loop.simps) simp

lemma LeafNode_lowerbound_loop_spec:
  "i \<le> cnt n \<Longrightarrow>
   i \<le> LeafNode_lowerbound_loop n key i \<and> LeafNode_lowerbound_loop n key i \<le> cnt n \<and>
   (\<forall>j. i \<le> j \<and> j < LeafNode_lowerbound_loop n key i \<longrightarrow> fst (entry n ! j) < key) \<and>
   (LeafNode_lowerbound_loop n key i < cnt n \<longrightarrow>
      key \<le> fst (entry n ! LeafNode_lowerbound_loop n key i))"
proof (induction n key i rule: LeafNode_lowerbound_loop.induct)
  case (1 n key i)
  consider "i < cnt n" "key \<le> fst (entry n ! i)" | "i < cnt n" "\<not> key \<le> fst (entry n ! i)"
    | "\<not> i < cnt n"
    by blast
  then show ?case
  proof cases
    case 1
    then show ?thesis by (auto simp: LeafNode_lowerbound_loop_hit)
  next
    case 2
    let ?r = "LeafNode_lowerbound_loop n key (Suc i)"
    from 2 "1.IH" have ih: "Suc i \<le> ?r" "?r \<le> cnt n"
      "\<forall>j. Suc i \<le> j \<and> j < ?r \<longrightarrow> fst (entry n ! j) < key"
      "?r < cnt n \<longrightarrow> key \<le> fst (entry n ! ?r)"
      by simp_all
    have eq: "LeafNode_lowerbound_loop n key i = ?r"
      using 2 by (rule LeafNode_lowerbound_loop_next)
    have "fst (entry n ! j) < key" if "i \<le> j" "j < ?r" for j
    proof (cases "j = i")
      case True
      with 2 show ?thesis by (simp add: not_le)
    next
      case False
      with that ih(3) show ?thesis by simp
    qed
    with ih eq show ?thesis by simp
  next
    case 3
    with "1.prems" show ?thesis by (auto simp: LeafNode_lowerbound_loop_end)
  qed
qed

lemma InternalNode_lowerbound_loop_eq:
  "InternalNode_lowerbound_loop n key i = LeafNode_lowerbound_loop n key i"
proof (induction n key i rule: LeafNode_lowerbound_loop.induct)
  case (1 n key i)
  consider "i < cnt n" "key \<le> fst (entry n ! i)" | "i < cnt n" "\<not> key \<le> fst (entry n ! i)"
    | "\<not> i < cnt n"
    by blast
  then show ?case
  proof cases
    case 1
    then show ?thesis
      by (subst InternalNode_lowerbound_loop.simps) (simp add: LeafNode_lowerbound_loop_hit)
  next
    case 2
    with "1.IH" show ?thesis
      by (subst InternalNode_lowerbound_loop.simps) (simp add: LeafNode_lowerbound_loop_next)
  next
    case 3
    then show ?thesis
      by (subst InternalNode_lowerbound_loop.simps) (simp add: LeafNode_lowerbound_loop_end)
  qed
qed

text \<open>The position both classes compute: the first of the \<open>cnt\<close> keys that is not below \<open>key\<close>.\<close>

lemma LeafNode_find_lowerbound_spec:
  "LeafNode_find_lowerbound n key \<le> cnt n"
  "j < LeafNode_find_lowerbound n key \<Longrightarrow> fst (entry n ! j) < key"
  "LeafNode_find_lowerbound n key < cnt n \<Longrightarrow> key \<le> fst (entry n ! LeafNode_find_lowerbound n key)"
  using LeafNode_lowerbound_loop_spec [of 0 n key]
  by (simp_all add: LeafNode_find_lowerbound_def LeafNode_lowerbound_linear_def)

lemma InternalNode_find_lowerbound_eq:
  "InternalNode_find_lowerbound n key = LeafNode_find_lowerbound n key"
  by (simp add: InternalNode_find_lowerbound_def InternalNode_lowerbound_linear_def
      LeafNode_find_lowerbound_def LeafNode_lowerbound_linear_def InternalNode_lowerbound_loop_eq)

lemma InternalNode_find_lowerbound_spec:
  "InternalNode_find_lowerbound n key \<le> cnt n"
  "j < InternalNode_find_lowerbound n key \<Longrightarrow> fst (entry n ! j) < key"
  "InternalNode_find_lowerbound n key < cnt n \<Longrightarrow>
     key \<le> fst (entry n ! InternalNode_find_lowerbound n key)"
  by (simp_all add: InternalNode_find_lowerbound_eq LeafNode_find_lowerbound_spec)

lemma find_pos_loop_first:
  "i \<le> p \<Longrightarrow> p < cnt n \<Longrightarrow> fst (entry n ! p) = key \<Longrightarrow>
   \<forall>j. i \<le> j \<and> j < p \<longrightarrow> fst (entry n ! j) \<noteq> key \<Longrightarrow> find_pos_loop n key i = Some p"
proof (induction n key i rule: find_pos_loop.induct)
  case (1 n key i)
  show ?case
  proof (cases "i = p")
    case True
    with "1.prems" show ?thesis by (subst find_pos_loop.simps) simp
  next
    case False
    with "1.prems" have "i < p" "i < cnt n" "key \<noteq> fst (entry n ! i)" by auto
    moreover from this "1.IH" "1.prems" have "find_pos_loop n key (Suc i) = Some p" by simp
    ultimately show ?thesis by (subst find_pos_loop.simps) simp
  qed
qed

lemma find_pos_loop_none:
  "\<forall>j. i \<le> j \<and> j < cnt n \<longrightarrow> fst (entry n ! j) \<noteq> key \<Longrightarrow> find_pos_loop n key i = None"
proof (induction n key i rule: find_pos_loop.induct)
  case (1 n key i)
  show ?case
  proof (cases "i < cnt n")
    case True
    with "1.prems" have "key \<noteq> fst (entry n ! i)" by auto
    moreover from this True "1.IH" "1.prems" have "find_pos_loop n key (Suc i) = None" by simp
    ultimately show ?thesis using True by (subst find_pos_loop.simps) simp
  next
    case False
    then show ?thesis by (subst find_pos_loop.simps) simp
  qed
qed

lemma find_loop_first:
  "i \<le> p \<Longrightarrow> p < cnt n \<Longrightarrow> fst (entry n ! p) = key \<Longrightarrow>
   \<forall>j. i \<le> j \<and> j < p \<longrightarrow> fst (entry n ! j) \<noteq> key \<Longrightarrow> find_loop n key i = snd (entry n ! p)"
proof (induction n key i rule: find_loop.induct)
  case (1 n key i)
  show ?case
  proof (cases "i = p")
    case True
    with "1.prems" show ?thesis by (subst find_loop.simps) simp
  next
    case False
    with "1.prems" have "i < p" "i < cnt n" "key \<noteq> fst (entry n ! i)" by auto
    moreover from this "1.IH" "1.prems" have "find_loop n key (Suc i) = snd (entry n ! p)" by simp
    ultimately show ?thesis by (subst find_loop.simps) simp
  qed
qed

lemma find_loop_none:
  "\<forall>j. i \<le> j \<and> j < cnt n \<longrightarrow> fst (entry n ! j) \<noteq> key \<Longrightarrow> find_loop n key i = 0"
proof (induction n key i rule: find_loop.induct)
  case (1 n key i)
  show ?case
  proof (cases "i < cnt n")
    case True
    with "1.prems" have "key \<noteq> fst (entry n ! i)" by auto
    moreover from this True "1.IH" "1.prems" have "find_loop n key (Suc i) = 0" by simp
    ultimately show ?thesis using True by (subst find_loop.simps) simp
  next
    case False
    then show ?thesis by (subst find_loop.simps) simp
  qed
qed

lemma update_loop_first:
  "i \<le> p \<Longrightarrow> p < cnt n \<Longrightarrow> fst (entry n ! p) = key \<Longrightarrow>
   \<forall>j. i \<le> j \<and> j < p \<longrightarrow> fst (entry n ! j) \<noteq> key \<Longrightarrow>
   update_loop n key val i = (True, n\<lparr>entry := (entry n)[p := (fst (entry n ! p), val)]\<rparr>)"
proof (induction n key val i rule: update_loop.induct)
  case (1 n key val i)
  show ?case
  proof (cases "i = p")
    case True
    with "1.prems" show ?thesis by (subst update_loop.simps) simp
  next
    case False
    with "1.prems" have "i < p" "i < cnt n" "key \<noteq> fst (entry n ! i)" by auto
    moreover from this "1.IH" "1.prems"
    have "update_loop n key val (Suc i) = (True, n\<lparr>entry := (entry n)[p := (fst (entry n ! p), val)]\<rparr>)"
      by simp
    ultimately show ?thesis by (subst update_loop.simps) simp
  qed
qed

lemma update_loop_none:
  "\<forall>j. i \<le> j \<and> j < cnt n \<longrightarrow> fst (entry n ! j) \<noteq> key \<Longrightarrow> update_loop n key val i = (False, n)"
proof (induction n key val i rule: update_loop.induct)
  case (1 n key val i)
  show ?case
  proof (cases "i < cnt n")
    case True
    with "1.prems" have "key \<noteq> fst (entry n ! i)" by auto
    moreover from this True "1.IH" "1.prems" have "update_loop n key val (Suc i) = (False, n)" by simp
    ultimately show ?thesis using True by (subst update_loop.simps) simp
  next
    case False
    then show ?thesis by (subst update_loop.simps) simp
  qed
qed

text \<open>Every key has a first position among the \<open>cnt\<close> entries, or none.\<close>

lemma first_position:
  "(\<exists>p < (c :: nat). f p = (key :: key_t) \<and> (\<forall>j < p. f j \<noteq> key)) \<or> (\<forall>j < c. f j \<noteq> key)"
proof (cases "\<exists>j < c. f j = key")
  case True
  define p where "p = (LEAST j. j < c \<and> f j = key)"
  have "p < c \<and> f p = key"
    using LeastI_ex [of "\<lambda>j. j < c \<and> f j = key"] True unfolding p_def by blast
  moreover have "f j \<noteq> key" if "j < p" for j
    using that not_less_Least [of j "\<lambda>j. j < c \<and> f j = key"] \<open>p < c \<and> f p = key\<close>
    unfolding p_def by auto
  ultimately show ?thesis by blast
next
  case False
  then show ?thesis by blast
qed

subsection \<open>The entries after an insertion\<close>

lemma LeafNode_insert_entry:
  assumes "cnt n < length (entry n)"
  shows "entry (LeafNode_insert n key val) =
         take (LeafNode_find_lowerbound n key) (entry n) @ [(key, val)] @
         take (cnt n - LeafNode_find_lowerbound n key) (drop (LeafNode_find_lowerbound n key) (entry n)) @
         drop (cnt n + 1) (entry n)"
proof -
  let ?pos = "LeafNode_find_lowerbound n key"
  let ?e = "entry n"
  have pos: "?pos \<le> cnt n" by (rule LeafNode_find_lowerbound_spec)
  with assms have len: "?pos < length ?e" by simp
  have mm: "memmove ?e (Suc ?pos) ?pos (cnt n - ?pos) =
            take ?pos ?e @ ?e ! ?pos # take (cnt n - ?pos) (drop ?pos ?e) @ drop (Suc (cnt n)) ?e"
    using pos len by (simp add: memmove_def memcpy_def take_Suc_conv_app_nth)
  have upd: "(take ?pos ?e @ x # ys)[?pos := y] = take ?pos ?e @ y # ys" for x y ys
    using len by (simp add: list_update_append)
  have nth0: "(take ?pos ?e @ zs) ! ?pos = zs ! 0" for zs
    using len by (simp add: nth_append)
  show ?thesis
  proof (cases "cnt n = 0")
    case True
    with pos have "?pos = 0" by simp
    with True assms show ?thesis
      by (cases "entry n") (simp_all add: LeafNode_insert_def Let_def)
  next
    case False
    then show ?thesis
      by (simp add: LeafNode_insert_def Let_def mm upd nth0)
  qed
qed

lemma LeafNode_insert_fields:
  "cnt (LeafNode_insert n key val) = cnt n + 1"
  "high_key (LeafNode_insert n key val) = (if key > high_key n then key else high_key n)"
  "sibling_ptr (LeafNode_insert n key val) = sibling_ptr n"
  "level (LeafNode_insert n key val) = level n"
  "lock (LeafNode_insert n key val) = lock n"
  by (simp_all add: LeafNode_insert_def Let_def)

lemma InternalNode_insert_entry:
  assumes "cnt n + 1 < length (entry n)"
  shows "entry (InternalNode_insert n key val) =
         take (InternalNode_find_lowerbound n key) (entry n) @
         [(key, snd (entry n ! InternalNode_find_lowerbound n key)),
          (fst (entry n ! InternalNode_find_lowerbound n key), val)] @
         take (cnt n - InternalNode_find_lowerbound n key)
           (drop (InternalNode_find_lowerbound n key + 1) (entry n)) @
         drop (cnt n + 2) (entry n)"
proof -
  let ?pos = "InternalNode_find_lowerbound n key"
  let ?e = "entry n"
  have pos: "?pos \<le> cnt n" by (rule InternalNode_find_lowerbound_spec)
  with assms have len: "?pos < length ?e" "?pos + 1 < length ?e" by simp_all
  have "drop ?pos ?e = ?e ! ?pos # drop (Suc ?pos) ?e"
    using len by (simp add: Cons_nth_drop_Suc)
  then have tk: "take (Suc (cnt n - ?pos)) (drop ?pos ?e) =
            ?e ! ?pos # take (cnt n - ?pos) (drop (Suc ?pos) ?e)"
    by simp
  have mm: "memmove ?e (Suc ?pos) ?pos (Suc (cnt n - ?pos)) =
            take ?pos ?e @ ?e ! ?pos # ?e ! ?pos # take (cnt n - ?pos) (drop (Suc ?pos) ?e) @
            drop (Suc (Suc (cnt n))) ?e"
    using pos len by (simp add: memmove_def memcpy_def take_Suc_conv_app_nth tk)
  have n0: "(take ?pos ?e @ zs) ! ?pos = zs ! 0" for zs
    using len by (simp add: nth_append)
  have n1: "(take ?pos ?e @ zs) ! Suc ?pos = zs ! 1" for zs
    using len by (simp add: nth_append)
  have u0: "(take ?pos ?e @ x # zs)[?pos := y] = take ?pos ?e @ y # zs" for x y zs
    using len by (simp add: list_update_append)
  have u1: "(take ?pos ?e @ x # x' # zs)[Suc ?pos := y] = take ?pos ?e @ x # y # zs" for x x' y zs
    using len by (simp add: list_update_append)
  show ?thesis
    by (simp add: InternalNode_insert_def Let_def mm n0 n1 u0 u1)
qed

lemma InternalNode_insert_fields:
  "cnt (InternalNode_insert n key val) = cnt n + 1"
  "high_key (InternalNode_insert n key val) = (if key > high_key n then key else high_key n)"
  "sibling_ptr (InternalNode_insert n key val) = sibling_ptr n"
  "level (InternalNode_insert n key val) = level n"
  "lock (InternalNode_insert n key val) = lock n"
  by (simp_all add: InternalNode_insert_def Let_def)

section \<open>The latch\<close>

lemma try_writelock_result:
  "try_writelock v c = (if is_locked v \<or> is_obsolete v then (if c = v then (True, v + 2) else (False, c)) else (False, c))"
  by (simp add: try_writelock_def need_restart_def compare_exchange_strong_def)

text \<open>
  C1. \<^verbatim>\<open>try_writelock\<close> is to take the lock when the version it loads is neither locked
  nor obsolete, and to signal a restart otherwise. The code returns \<^verbatim>\<open>false\<close> when
  \<^verbatim>\<open>need_restart\<close> leaves the flag clear, and runs the compare-and-swap when the flag
  is set: on the locked version 2 it succeeds and stores 4, on the free version 0 it
  fails and stores nothing.
\<close>

theorem try_writelock_inverted:
  "try_writelock 2 2 = (True, 4) \<and> try_writelock 0 0 = (False, 0)"
  by (simp add: try_writelock_def need_restart_def is_locked_def is_obsolete_def
      compare_exchange_strong_def)

section \<open>Insertion into an internal node\<close>

text \<open>
  C4. \<^verbatim>\<open>InternalNode::insert(k, C)\<close> on a node that is not full, with \<open>i\<close> the lower
  bound of \<open>k\<close> before the call: slot \<open>i\<close> holds the key \<open>k\<close> and keeps its child, slot
  \<open>i + 1\<close> holds the key that was in slot \<open>i\<close> and the child \<open>C\<close>, the slots before
  \<open>i\<close> are unchanged, the slots after \<open>i + 1\<close> up to the last child hold what the slot
  before them held, the rest of the array and the other fields are unchanged,
  \<open>cnt\<close> has grown by one and \<open>high_key\<close> is \<open>k\<close> if \<open>k\<close> exceeded it.
\<close>

theorem InternalNode_insert_places_separator:
  assumes "cnt n < cardinality - 1" and "length (entry n) = cardinality"
  shows "(\<forall>j < InternalNode_find_lowerbound n k.
            entry (InternalNode_insert n k C) ! j = entry n ! j) \<and>
         entry (InternalNode_insert n k C) ! InternalNode_find_lowerbound n k =
           (k, snd (entry n ! InternalNode_find_lowerbound n k)) \<and>
         entry (InternalNode_insert n k C) ! (InternalNode_find_lowerbound n k + 1) =
           (fst (entry n ! InternalNode_find_lowerbound n k), C) \<and>
         (\<forall>j. InternalNode_find_lowerbound n k + 1 < j \<and> j \<le> cnt n + 1 \<longrightarrow>
            entry (InternalNode_insert n k C) ! j = entry n ! (j - 1)) \<and>
         (\<forall>j. cnt n + 1 < j \<and> j < cardinality \<longrightarrow>
            entry (InternalNode_insert n k C) ! j = entry n ! j) \<and>
         cnt (InternalNode_insert n k C) = cnt n + 1 \<and>
         high_key (InternalNode_insert n k C) = (if k > high_key n then k else high_key n) \<and>
         sibling_ptr (InternalNode_insert n k C) = sibling_ptr n \<and>
         level (InternalNode_insert n k C) = level n \<and>
         lock (InternalNode_insert n k C) = lock n"
proof -
  let ?i = "InternalNode_find_lowerbound n k"
  let ?e = "entry n"
  let ?e' = "entry (InternalNode_insert n k C)"
  let ?mid = "take (cnt n - ?i) (drop (?i + 1) ?e)"
  have i: "?i \<le> cnt n" by (rule InternalNode_find_lowerbound_spec)
  from assms have len: "cnt n + 1 < length ?e" by simp
  have e': "?e' = take ?i ?e @ (k, snd (?e ! ?i)) # (fst (?e ! ?i), C) # ?mid @ drop (cnt n + 2) ?e"
    using InternalNode_insert_entry [OF len, of k C] by simp
  have front: "length (take ?i ?e) = ?i"
    using i len by simp
  have at: "?e' ! (?i + m) = ((k, snd (?e ! ?i)) # (fst (?e ! ?i), C) # ?mid @ drop (cnt n + 2) ?e) ! m"
    for m
    unfolding e' using front by (simp only: nth_append_length_plus [of "take ?i ?e", unfolded front])
  have a: "?e' ! j = ?e ! j" if "j < ?i" for j
    unfolding e' using that front by (simp only: nth_append) simp
  have b: "?e' ! ?i = (k, snd (?e ! ?i))"
    using at [of 0] by simp
  have c: "?e' ! (?i + 1) = (fst (?e ! ?i), C)"
    using at [of 1] by simp
  have lmid: "length ?mid = cnt n - ?i"
    using i len by simp
  have d: "?e' ! j = ?e ! (j - 1)" if "?i + 1 < j" "j \<le> cnt n + 1" for j
  proof -
    define m where "m = j - (?i + 2)"
    from that have j: "j = ?i + (m + 2)" and m: "m < cnt n - ?i"
      by (simp_all add: m_def)
    have "?e' ! j = (?mid @ drop (cnt n + 2) ?e) ! m"
      unfolding j using at [of "m + 2"] by simp
    also have "\<dots> = ?mid ! m"
      using m lmid by (simp only: nth_append) simp
    also have "\<dots> = ?e ! (?i + 1 + m)"
      using m len i by simp
    finally show ?thesis by (simp add: j)
  qed
  have f: "?e' ! j = ?e ! j" if "cnt n + 1 < j" "j < cardinality" for j
  proof -
    define m where "m = j - (cnt n + 2)"
    define m' where "m' = m + (cnt n - ?i)"
    from that i have j: "j = ?i + (m' + 2)" "j = cnt n + 2 + m"
      by (simp_all add: m_def m'_def)
    from that assms have jl: "cnt n + 2 + m \<le> length ?e" by (simp add: m_def)
    have "?e' ! j = (?mid @ drop (cnt n + 2) ?e) ! m'"
      unfolding j(1) using at [of "m' + 2"] by simp
    also have "\<dots> = drop (cnt n + 2) ?e ! m"
      using lmid by (simp only: nth_append m'_def) simp
    also have "\<dots> = ?e ! j"
      using jl by (simp add: j(2))
    finally show ?thesis .
  qed
  from a b c d f show ?thesis
    by (simp only: InternalNode_insert_fields) simp
qed

theorem InternalNode_insert_places_separator_witness:
  "cnt example_internal < cardinality - 1 \<and> length (entry example_internal) = cardinality \<and>
   InternalNode_find_lowerbound example_internal 15 = 1 \<and>
   entry (InternalNode_insert example_internal 15 104) ! 0 = (10, 101) \<and>
   entry (InternalNode_insert example_internal 15 104) ! 1 = (15, 102) \<and>
   entry (InternalNode_insert example_internal 15 104) ! 2 = (20, 104) \<and>
   entry (InternalNode_insert example_internal 15 104) ! 3 = (0, 103) \<and>
   cnt (InternalNode_insert example_internal 15 104) = 3 \<and>
   high_key (InternalNode_insert example_internal 15 104) = 20"
proof -
  have h1: "cnt example_internal < cardinality - 1"
    by (simp add: example_internal_def cardinality_eq)
  have h2: "length (entry example_internal) = cardinality"
    by (simp add: example_internal_def cardinality_eq junk_def)
  have lb: "InternalNode_find_lowerbound example_internal 15 = 1"
    by code_simp
  have e: "entry example_internal ! 0 = (10, 101)" "entry example_internal ! 1 = (20, 102)"
    "entry example_internal ! 2 = (0, 103)" "cnt example_internal = 2"
    "high_key example_internal = 20"
    by (simp_all add: example_internal_def)
  note T = InternalNode_insert_places_separator [OF h1 h2, of 15 104, unfolded lb]
  from T have a: "\<And>j. j < 1 \<Longrightarrow>
      entry (InternalNode_insert example_internal 15 104) ! j = entry example_internal ! j"
    by blast
  from T have d: "\<And>j. 1 + 1 < j \<and> j \<le> cnt example_internal + 1 \<Longrightarrow>
      entry (InternalNode_insert example_internal 15 104) ! j = entry example_internal ! (j - 1)"
    by blast
  from a [of 0] have "entry (InternalNode_insert example_internal 15 104) ! 0 = (10, 101)"
    using e by simp
  moreover from T have "entry (InternalNode_insert example_internal 15 104) ! 1 = (15, 102)"
    using e by simp
  moreover from T have "entry (InternalNode_insert example_internal 15 104) ! (1 + 1) = (20, 104)"
    using e by simp
  moreover from d [of 3] have "entry (InternalNode_insert example_internal 15 104) ! 3 = (0, 103)"
    using e by simp
  moreover from T have "cnt (InternalNode_insert example_internal 15 104) = 3"
    using e by simp
  moreover from T have "high_key (InternalNode_insert example_internal 15 104) = 20"
    using e by simp
  ultimately show ?thesis using h1 h2 lb by (simp add: numeral_2_eq_2)
qed

section \<open>Leaves, splits and the store\<close>

lemma length_keys: "cnt n \<le> length (entry n) \<Longrightarrow> length (keys n) = cnt n"
  by (simp add: keys_def)

lemma nth_keys: "j < cnt n \<Longrightarrow> cnt n \<le> length (entry n) \<Longrightarrow> keys n ! j = fst (entry n ! j)"
  by (simp add: keys_def)

lemma keys_conv_nth:
  assumes "cnt n \<le> length (entry n)"
  shows "k \<in> set (keys n) \<longleftrightarrow> (\<exists>j < cnt n. fst (entry n ! j) = k)"
proof
  assume "k \<in> set (keys n)"
  then obtain j where "j < length (keys n)" "keys n ! j = k"
    by (auto simp: in_set_conv_nth)
  with assms show "\<exists>j < cnt n. fst (entry n ! j) = k"
    by (auto simp: length_keys nth_keys)
next
  assume "\<exists>j < cnt n. fst (entry n ! j) = k"
  then obtain j where j: "j < cnt n" "fst (entry n ! j) = k" by blast
  with assms have "keys n ! j = k" "j < length (keys n)"
    by (simp_all add: length_keys nth_keys)
  then show "k \<in> set (keys n)" by (metis nth_mem)
qed

lemma LeafNode_update_found:
  "p < cnt n \<Longrightarrow> fst (entry n ! p) = k \<Longrightarrow> \<forall>j < p. fst (entry n ! j) \<noteq> k \<Longrightarrow>
   LeafNode_update n k v = (True, n\<lparr>entry := (entry n)[p := (k, v)]\<rparr>)"
  using update_loop_first [of 0 p n k v]
  by (simp add: LeafNode_update_def update_linear_def)

lemma LeafNode_update_absent:
  "\<forall>j < cnt n. fst (entry n ! j) \<noteq> k \<Longrightarrow> LeafNode_update n k v = (False, n)"
  using update_loop_none [of 0 n k v]
  by (simp add: LeafNode_update_def update_linear_def)

text \<open>
  C8. \<^verbatim>\<open>LeafNode::update(k, v)\<close>: when \<open>p\<close> is the first of the \<open>cnt\<close> entries with key
  \<open>k\<close>, the result is \<^verbatim>\<open>true\<close> and the leaf differs from the one before in the value of
  entry \<open>p\<close> only; when no entry has key \<open>k\<close>, the result is \<^verbatim>\<open>false\<close> and the leaf is
  the one before. In both cases the result says whether \<open>k\<close> is among the keys, and the
  keys of the whole array, \<open>cnt\<close>, \<open>high_key\<close>, \<open>sibling_ptr\<close>, \<open>level\<close> and the latch
  are unchanged.
\<close>

theorem LeafNode_update_frame:
  assumes "cnt n \<le> length (entry n)"
  shows "(\<forall>p. p < cnt n \<and> fst (entry n ! p) = k \<and> (\<forall>j < p. fst (entry n ! j) \<noteq> k) \<longrightarrow>
            LeafNode_update n k v = (True, n\<lparr>entry := (entry n)[p := (k, v)]\<rparr>)) \<and>
         ((\<forall>j < cnt n. fst (entry n ! j) \<noteq> k) \<longrightarrow> LeafNode_update n k v = (False, n)) \<and>
         fst (LeafNode_update n k v) = (k \<in> set (keys n)) \<and>
         map fst (entry (snd (LeafNode_update n k v))) = map fst (entry n) \<and>
         cnt (snd (LeafNode_update n k v)) = cnt n \<and>
         high_key (snd (LeafNode_update n k v)) = high_key n \<and>
         sibling_ptr (snd (LeafNode_update n k v)) = sibling_ptr n \<and>
         level (snd (LeafNode_update n k v)) = level n \<and>
         lock (snd (LeafNode_update n k v)) = lock n"
proof -
  have found: "LeafNode_update n k v = (True, n\<lparr>entry := (entry n)[p := (k, v)]\<rparr>)"
    if "p < cnt n" "fst (entry n ! p) = k" "\<forall>j < p. fst (entry n ! j) \<noteq> k" for p
    using that by (rule LeafNode_update_found)
  have absent: "LeafNode_update n k v = (False, n)" if "\<forall>j < cnt n. fst (entry n ! j) \<noteq> k"
    using that by (rule LeafNode_update_absent)
  consider p where "p < cnt n" "fst (entry n ! p) = k" "\<forall>j < p. fst (entry n ! j) \<noteq> k"
    | "\<forall>j < cnt n. fst (entry n ! j) \<noteq> k"
    using first_position [of "cnt n" "\<lambda>j. fst (entry n ! j)" k] by blast
  then have rest: "fst (LeafNode_update n k v) = (k \<in> set (keys n)) \<and>
         map fst (entry (snd (LeafNode_update n k v))) = map fst (entry n) \<and>
         cnt (snd (LeafNode_update n k v)) = cnt n \<and>
         high_key (snd (LeafNode_update n k v)) = high_key n \<and>
         sibling_ptr (snd (LeafNode_update n k v)) = sibling_ptr n \<and>
         level (snd (LeafNode_update n k v)) = level n \<and>
         lock (snd (LeafNode_update n k v)) = lock n"
  proof cases
    case 1
    from 1(1) assms have "p < length (entry n)" by simp
    then have "map fst ((entry n)[p := (k, v)]) = map fst (entry n)"
      using 1(2) by (simp add: map_update list_update_same_conv)
    moreover from 1 assms have "k \<in> set (keys n)"
      by (auto simp: keys_conv_nth)
    ultimately show ?thesis by (simp add: found [OF 1])
  next
    case 2
    with assms have "k \<notin> set (keys n)" by (auto simp: keys_conv_nth)
    with 2 show ?thesis by (simp add: absent)
  qed
  from found absent rest show ?thesis by blast
qed

theorem LeafNode_update_frame_witness:
  "cnt example_leaf \<le> length (entry example_leaf) \<and>
   LeafNode_update example_leaf 20 7 =
     (True, example_leaf\<lparr>entry := (entry example_leaf)[1 := (20, 7)]\<rparr>) \<and>
   LeafNode_update example_leaf 30 7 = (False, example_leaf)"
proof -
  have h: "cnt example_leaf \<le> length (entry example_leaf)"
    by (simp add: example_leaf_def)
  have a: "1 < cnt example_leaf \<and> fst (entry example_leaf ! 1) = 20 \<and>
           (\<forall>j < 1. fst (entry example_leaf ! j) \<noteq> 20)"
    by (simp add: example_leaf_def)
  have b: "\<forall>j < cnt example_leaf. fst (entry example_leaf ! j) \<noteq> 30"
    by (simp add: example_leaf_def less_Suc_eq numeral_3_eq_3)
  from LeafNode_update_frame [OF h, of 20 7] a
  have "LeafNode_update example_leaf 20 7 =
          (True, example_leaf\<lparr>entry := (entry example_leaf)[1 := (20, 7)]\<rparr>)"
    by blast
  moreover from LeafNode_update_frame [OF h, of 30 7] b
  have "LeafNode_update example_leaf 30 7 = (False, example_leaf)"
    by blast
  ultimately show ?thesis using h by simp
qed


lemma length_entries: "cnt n \<le> length (entry n) \<Longrightarrow> length (entries n) = cnt n"
  by (simp add: entries_def)

lemma nth_entries: "j < cnt n \<Longrightarrow> entries n ! j = entry n ! j"
  by (simp add: entries_def)

lemma keys_entries: "keys n = map fst (entries n)"
  by (simp add: keys_def entries_def)

lemma take_append_exact: "length xs = m \<Longrightarrow> take m (xs @ ys) = xs"
  by simp

lemma entries_LeafNode_insert:
  assumes "cnt n < length (entry n)"
  shows "entries (LeafNode_insert n k v) =
         take (LeafNode_find_lowerbound n k) (entries n) @ (k, v) #
         drop (LeafNode_find_lowerbound n k) (entries n)"
proof -
  let ?pos = "LeafNode_find_lowerbound n k"
  have pos: "?pos \<le> cnt n" by (rule LeafNode_find_lowerbound_spec)
  let ?A = "take ?pos (entry n)" and ?B = "take (cnt n - ?pos) (drop ?pos (entry n))"
  have "length (?A @ (k, v) # ?B) = cnt n + 1"
    using pos assms by simp
  then have "take (cnt n + 1) ((?A @ (k, v) # ?B) @ drop (cnt n + 1) (entry n)) = ?A @ (k, v) # ?B"
    by (rule take_append_exact)
  then have "entries (LeafNode_insert n k v) = ?A @ (k, v) # ?B"
    by (simp add: entries_def [of "LeafNode_insert n k v"] LeafNode_insert_entry [OF assms]
        LeafNode_insert_fields)
  moreover have "take ?pos (entries n) = ?A"
    using pos by (simp add: entries_def min_def)
  moreover have "drop ?pos (entries n) = ?B"
    by (simp add: entries_def drop_take)
  ultimately show ?thesis by simp
qed

lemma LeafNode_insert_at_lowerbound:
  assumes "cnt n < length (entry n)"
  shows "entry (LeafNode_insert n k v) ! LeafNode_find_lowerbound n k = (k, v)"
    and "j < LeafNode_find_lowerbound n k \<Longrightarrow> entry (LeafNode_insert n k v) ! j = entry n ! j"
proof -
  let ?pos = "LeafNode_find_lowerbound n k"
  have pos: "?pos \<le> cnt n" by (rule LeafNode_find_lowerbound_spec)
  with assms have len: "length (take ?pos (entry n)) = ?pos" by simp
  show "entry (LeafNode_insert n k v) ! ?pos = (k, v)"
    unfolding LeafNode_insert_entry [OF assms]
    using nth_append_length [of "take ?pos (entry n)"] len by simp
  show "entry (LeafNode_insert n k v) ! j = entry n ! j" if "j < ?pos"
    unfolding LeafNode_insert_entry [OF assms]
    using that len by (simp only: nth_append) simp
qed

lemma LeafNode_find_first:
  "p < cnt n \<Longrightarrow> fst (entry n ! p) = k \<Longrightarrow> \<forall>j < p. fst (entry n ! j) \<noteq> k \<Longrightarrow>
   LeafNode_find n k = snd (entry n ! p)"
  using find_loop_first [of 0 p n k] by (simp add: LeafNode_find_def find_linear_def)

lemma LeafNode_find_absent:
  "\<forall>j < cnt n. fst (entry n ! j) \<noteq> k \<Longrightarrow> LeafNode_find n k = 0"
  using find_loop_none [of 0 n k] by (simp add: LeafNode_find_def find_linear_def)

lemma LeafNode_remove_first:
  "p < cnt n \<Longrightarrow> fst (entry n ! p) = k \<Longrightarrow> \<forall>j < p. fst (entry n ! j) \<noteq> k \<Longrightarrow>
   LeafNode_remove n k =
     (True, n\<lparr>entry := memmove (entry n) p (p + 1) (cnt n - p - 1), cnt := cnt n - 1\<rparr>)"
  using find_pos_loop_first [of 0 p n k] by (simp add: LeafNode_remove_def find_pos_linear_def)

lemma LeafNode_remove_absent:
  "\<forall>j < cnt n. fst (entry n ! j) \<noteq> k \<Longrightarrow> LeafNode_remove n k = (False, n)"
  using find_pos_loop_none [of 0 n k] by (simp add: LeafNode_remove_def find_pos_linear_def)

lemma entries_remove_at:
  assumes "p < cnt n" "cnt n \<le> length (entry n)"
  shows "entries (n\<lparr>entry := memmove (entry n) p (p + 1) (cnt n - p - 1), cnt := cnt n - 1\<rparr>) =
         take p (entries n) @ drop (p + 1) (entries n)"
proof -
  let ?A = "take p (entry n)" and ?B = "take (cnt n - p - 1) (drop (p + 1) (entry n))"
  have "length (?A @ ?B) = cnt n - 1"
    using assms by simp
  then have "take (cnt n - 1) ((?A @ ?B) @ drop (p + (cnt n - p - 1)) (entry n)) = ?A @ ?B"
    by (rule take_append_exact)
  then have "entries (n\<lparr>entry := memmove (entry n) p (p + 1) (cnt n - p - 1), cnt := cnt n - 1\<rparr>) =
        ?A @ ?B"
    by (simp add: entries_def memmove_def memcpy_def)
  moreover have "take p (entries n) = ?A"
    using assms by (simp add: entries_def min_def)
  moreover have "drop (p + 1) (entries n) = ?B"
    by (simp add: entries_def drop_take)
  ultimately show ?thesis by simp
qed

lemma LeafNode_find_insert:
  assumes "cnt n < length (entry n)"
  shows "LeafNode_find (LeafNode_insert n k v) k = v"
proof -
  let ?pos = "LeafNode_find_lowerbound n k"
  let ?n' = "LeafNode_insert n k v"
  have pos: "?pos < cnt ?n'"
    using LeafNode_find_lowerbound_spec(1) [of n k] by (simp add: LeafNode_insert_fields)
  have at: "entry ?n' ! ?pos = (k, v)"
    by (rule LeafNode_insert_at_lowerbound [OF assms])
  have before: "\<forall>j < ?pos. fst (entry ?n' ! j) \<noteq> k"
    using LeafNode_insert_at_lowerbound(2) [OF assms] LeafNode_find_lowerbound_spec(2) [of _ n k]
    by fastforce
  from LeafNode_find_first [OF pos _ before] at show ?thesis by simp
qed

lemma LeafNode_remove_insert:
  assumes "cnt n < length (entry n)"
  shows "fst (LeafNode_remove (LeafNode_insert n k v) k)"
    and "entries (snd (LeafNode_remove (LeafNode_insert n k v) k)) = entries n"
    and "cnt (snd (LeafNode_remove (LeafNode_insert n k v) k)) = cnt n"
proof -
  let ?pos = "LeafNode_find_lowerbound n k"
  let ?n' = "LeafNode_insert n k v"
  have le: "?pos \<le> cnt n" by (rule LeafNode_find_lowerbound_spec)
  have pos: "?pos < cnt ?n'"
    using le by (simp add: LeafNode_insert_fields)
  have at: "fst (entry ?n' ! ?pos) = k"
    by (simp add: LeafNode_insert_at_lowerbound [OF assms])
  have before: "\<forall>j < ?pos. fst (entry ?n' ! j) \<noteq> k"
    using LeafNode_insert_at_lowerbound(2) [OF assms] LeafNode_find_lowerbound_spec(2) [of _ n k]
    by fastforce
  note rm = LeafNode_remove_first [OF pos at before]
  have len': "cnt ?n' \<le> length (entry ?n')"
    using assms le by (simp add: LeafNode_insert_fields LeafNode_insert_entry [OF assms])
  have lt: "length (take ?pos (entries n)) = ?pos"
    using le assms by (simp add: entries_def)
  show "fst (LeafNode_remove ?n' k)" by (simp add: rm)
  show "cnt (snd (LeafNode_remove ?n' k)) = cnt n" by (simp add: rm LeafNode_insert_fields)
  have "entries (snd (LeafNode_remove ?n' k)) = take ?pos (entries ?n') @ drop (?pos + 1) (entries ?n')"
    using entries_remove_at [OF pos len'] by (simp add: rm)
  also have "\<dots> = take ?pos (entries n) @ drop ?pos (entries n)"
    unfolding entries_LeafNode_insert [OF assms] using lt by simp
  finally show "entries (snd (LeafNode_remove ?n' k)) = entries n" by simp
qed

text \<open>
  C9. \<^verbatim>\<open>LeafNode::insert(k, v)\<close> on a leaf that is not full puts \<open>(k, v)\<close> at the lower
  bound of \<open>k\<close>: every entry before it has a smaller key, so the new entry precedes
  every entry that already had key \<open>k\<close>. Then \<^verbatim>\<open>find(k)\<close> returns \<open>v\<close>, and
  \<^verbatim>\<open>remove(k)\<close> returns \<^verbatim>\<open>true\<close> and takes out this one entry, leaving the entries the
  leaf had before the insertion.
\<close>

theorem LeafNode_insert_duplicate_first:
  assumes "cnt n < cardinality" and "length (entry n) = cardinality"
  shows "LeafNode_find_lowerbound n k \<le> cnt n \<and>
         (\<forall>j < LeafNode_find_lowerbound n k. fst (entry n ! j) < k) \<and>
         entries (LeafNode_insert n k v) =
           take (LeafNode_find_lowerbound n k) (entries n) @ (k, v) #
           drop (LeafNode_find_lowerbound n k) (entries n) \<and>
         LeafNode_find (LeafNode_insert n k v) k = v \<and>
         fst (LeafNode_remove (LeafNode_insert n k v) k) \<and>
         entries (snd (LeafNode_remove (LeafNode_insert n k v) k)) = entries n \<and>
         cnt (snd (LeafNode_remove (LeafNode_insert n k v) k)) = cnt n"
proof -
  from assms have len: "cnt n < length (entry n)" by simp
  show ?thesis
    using LeafNode_find_lowerbound_spec(1) [of n k] LeafNode_find_lowerbound_spec(2) [of _ n k]
      entries_LeafNode_insert [OF len] LeafNode_find_insert [OF len]
      LeafNode_remove_insert [OF len]
    by simp
qed

theorem LeafNode_insert_duplicate_first_witness:
  "cnt example_leaf < cardinality \<and> length (entry example_leaf) = cardinality \<and>
   entries (LeafNode_insert example_leaf 20 9) = [(10, 1), (20, 9), (20, 2), (20, 3)] \<and>
   LeafNode_find (LeafNode_insert example_leaf 20 9) 20 = 9 \<and>
   entries (snd (LeafNode_remove (LeafNode_insert example_leaf 20 9) 20)) =
     [(10, 1), (20, 2), (20, 3)]"
proof -
  have h1: "cnt example_leaf < cardinality"
    by (simp add: example_leaf_def cardinality_eq)
  have h2: "length (entry example_leaf) = cardinality"
    by (simp add: example_leaf_def cardinality_eq junk_def)
  have lb: "LeafNode_find_lowerbound example_leaf 20 = 1"
    by code_simp
  have e: "entries example_leaf = [(10, 1), (20, 2), (20, 3)]"
    by (simp add: entries_def example_leaf_def)
  from LeafNode_insert_duplicate_first [OF h1 h2, of 20 9] h1 h2 show ?thesis
    by (simp add: lb e)
qed


subsection \<open>The store\<close>

lemma load_store:
  "load (store t p n) q = (if q = nullptr then None else if q = p then Some n else load t q)"
  by (simp add: load_def store_def update_conv')

lemma store_fields [simp]:
  "root (store t p n) = root t" "brk (store t p n) = brk t" "storage (store t p n) = storage t"
  by (simp_all add: store_def)

lemma load_fields [simp]:
  "load (t\<lparr>root := r\<rparr>) q = load t q" "load (t\<lparr>brk := b\<rparr>) q = load t q"
  by (simp_all add: load_def)

lemma load_null [simp]: "load t nullptr = None"
  by (simp add: load_def)

lemma load_not_null: "load t p = Some n \<Longrightarrow> p \<noteq> nullptr"
  by (auto simp: load_def split: if_splits)

lemma operator_new_ok:
  "brk t \<noteq> 0 \<Longrightarrow> operator_new t = Inr (brk t, storage t (brk t), t\<lparr>brk := brk t + 1\<rparr>)"
  by (simp add: operator_new_def)

lemma alloc_ok_fresh: "alloc_ok t \<Longrightarrow> brk t \<noteq> 0 \<Longrightarrow> load t (brk t) = None"
  by (cases "load t (brk t)") (auto simp: alloc_ok_def)

lemma word_less_succ:
  assumes "(b :: u64) + 1 \<noteq> 0"
  shows "b < b + 1"
proof -
  from assms have "1 + b \<noteq> 0" by (simp add: add.commute)
  then have "unat (1 + b) = Suc (unat b)" by (rule unatSuc)
  then show ?thesis by (simp add: word_less_nat_alt add.commute)
qed

lemma alloc_ok_new: "alloc_ok t \<Longrightarrow> brk t \<noteq> 0 \<Longrightarrow> alloc_ok (store (t\<lparr>brk := brk t + 1\<rparr>) (brk t) n)"
proof (unfold alloc_ok_def, intro allI impI)
  fix p m
  assume ok: "\<forall>p n. load t p = Some n \<longrightarrow> brk t = 0 \<or> p < brk t" and nz: "brk t \<noteq> 0"
    and ld: "load (store (t\<lparr>brk := brk t + 1\<rparr>) (brk t) n) p = Some m"
  show "brk (store (t\<lparr>brk := brk t + 1\<rparr>) (brk t) n) = 0 \<or>
        p < brk (store (t\<lparr>brk := brk t + 1\<rparr>) (brk t) n)"
  proof (cases "brk t + 1 = 0")
    case True
    then show ?thesis by simp
  next
    case False
    then have lt: "brk t < brk t + 1" by (rule word_less_succ)
    show ?thesis
    proof (cases "p = brk t")
      case True
      with lt show ?thesis by simp
    next
      case False
      with ld have "load t p = Some m" by (simp add: load_store split: if_splits)
      with ok nz have "p < brk t" by blast
      with lt have "p < brk t + 1" by (metis less_trans)
      then show ?thesis by simp
    qed
  qed
qed

lemma alloc_ok_store: "alloc_ok t \<Longrightarrow> load t p = Some m \<Longrightarrow> alloc_ok (store t p n)"
  unfolding alloc_ok_def by (auto simp: load_store split: if_splits)


subsection \<open>Splits\<close>

lemma LeafNode_split_key: "fst (LeafNode_split n raw a) = fst (entry n ! (cnt n div 2 - 1))"
  by (simp add: LeafNode_split_def Let_def)

lemma LeafNode_split_right:
  "lock (fst (snd (LeafNode_split n raw a))) = 0"
  "sibling_ptr (fst (snd (LeafNode_split n raw a))) = sibling_ptr n"
  "cnt (fst (snd (LeafNode_split n raw a))) = cnt n - cnt n div 2"
  "level (fst (snd (LeafNode_split n raw a))) = level n"
  "high_key (fst (snd (LeafNode_split n raw a))) = high_key n"
  "entry (fst (snd (LeafNode_split n raw a))) =
     memcpy (entry raw) 0 (entry n) (cnt n div 2) (cnt n - cnt n div 2)"
  by (simp_all add: LeafNode_split_def Let_def LeafNode_split_ctor_def Node_init_def)

lemma LeafNode_split_left:
  "snd (snd (LeafNode_split n raw a)) =
     n\<lparr>sibling_ptr := a, high_key := fst (entry n ! (cnt n div 2 - 1)), cnt := cnt n div 2\<rparr>"
  by (simp add: LeafNode_split_def Let_def)

lemma entries_LeafNode_split_right:
  assumes "cnt n \<le> length (entry n)"
  shows "entries (fst (snd (LeafNode_split n raw a))) = drop (cnt n div 2) (entries n)"
proof -
  let ?h = "cnt n div 2"
  let ?A = "take (cnt n - ?h) (drop ?h (entry n))"
  have "length ?A = cnt n - ?h" using assms by simp
  then have "take (cnt n - ?h) (?A @ drop (cnt n - ?h) (entry raw)) = ?A"
    by (rule take_append_exact)
  then show ?thesis
    by (simp add: entries_def LeafNode_split_right memcpy_def drop_take)
qed

lemma entries_LeafNode_split_left:
  "entries (snd (snd (LeafNode_split n raw a))) = take (cnt n div 2) (entries n)"
  by (simp add: LeafNode_split_left entries_def min_def)

lemma split_leaf_eq:
  assumes "brk t \<noteq> 0" "load t leaf = Some n"
  shows "split_leaf t leaf =
         Inr (fst (LeafNode_split n (storage t (brk t)) (brk t)), brk t,
              store (store (t\<lparr>brk := brk t + 1\<rparr>) (brk t)
                       (fst (snd (LeafNode_split n (storage t (brk t)) (brk t)))))
                leaf (snd (snd (LeafNode_split n (storage t (brk t)) (brk t)))))"
  using assms by (simp add: split_leaf_def operator_new_ok split: prod.splits)

text \<open>
  C3. \<^verbatim>\<open>LeafNode::split\<close> on a full leaf, as the tree runs it
  (\<^verbatim>\<open>auto new_leaf = leaf->split(split_key)\<close>), with \<open>half = cnt div 2\<close>: the split key is
  the key of entry \<open>half - 1\<close>; the right node is at an address that held no node before,
  has the entries from \<open>half\<close> on, the sibling, the high key and the level the leaf had,
  and a free latch; the leaf keeps its array, has \<open>cnt = half\<close>, the split key as its high
  key and the right node as its sibling; no other node changes.
\<close>

theorem split_leaf_spec:
  assumes "load t leaf = Some n" and "LeafNode_is_full n" and "length (entry n) = cardinality"
    and "alloc_ok t" and "brk t \<noteq> 0"
  shows "\<exists>right t' r l.
           split_leaf t leaf = Inr (fst (entry n ! (cnt n div 2 - 1)), right, t') \<and>
           right \<noteq> nullptr \<and> load t right = None \<and>
           load t' right = Some r \<and> load t' leaf = Some l \<and>
           (\<forall>q. q \<noteq> right \<and> q \<noteq> leaf \<longrightarrow> load t' q = load t q) \<and>
           cnt r = cnt n - cnt n div 2 \<and>
           entries r = drop (cnt n div 2) (entries n) \<and>
           sibling_ptr r = sibling_ptr n \<and> high_key r = high_key n \<and> level r = level n \<and>
           lock r = 0 \<and>
           cnt l = cnt n div 2 \<and> high_key l = fst (entry n ! (cnt n div 2 - 1)) \<and>
           sibling_ptr l = right \<and> entry l = entry n \<and> level l = level n \<and> lock l = lock n"
proof -
  let ?right = "brk t"
  let ?s = "LeafNode_split n (storage t (brk t)) (brk t)"
  let ?t' = "store (store (t\<lparr>brk := brk t + 1\<rparr>) (brk t) (fst (snd ?s))) leaf (snd (snd ?s))"
  from assms(1) have leaf: "leaf \<noteq> nullptr" by (rule load_not_null)
  from assms(4,5) have fresh: "load t ?right = None" by (rule alloc_ok_fresh)
  with assms(1) have ne: "?right \<noteq> leaf" by auto
  from assms(5) have nn: "?right \<noteq> nullptr" by (simp add: nullptr_def)
  from assms(2,3) have len: "cnt n \<le> length (entry n)" by (simp add: LeafNode_is_full_def)
  have "split_leaf t leaf = Inr (fst (entry n ! (cnt n div 2 - 1)), ?right, ?t')"
    using split_leaf_eq [OF assms(5,1)] by (simp add: LeafNode_split_key)
  moreover have "load ?t' ?right = Some (fst (snd ?s))"
    using ne nn by (simp add: load_store)
  moreover have "load ?t' leaf = Some (snd (snd ?s))"
    using leaf by (simp add: load_store)
  moreover have "\<forall>q. q \<noteq> ?right \<and> q \<noteq> leaf \<longrightarrow> load ?t' q = load t q"
    by (auto simp: load_store)
  moreover have "entries (fst (snd ?s)) = drop (cnt n div 2) (entries n)"
    using len by (rule entries_LeafNode_split_right)
  ultimately show ?thesis
    using nn fresh by (simp add: LeafNode_split_right LeafNode_split_left)
qed


theorem split_leaf_spec_witness:
  "load full_leaf_tree 1 = Some full_leaf \<and> LeafNode_is_full full_leaf \<and>
   length (entry full_leaf) = cardinality \<and> alloc_ok full_leaf_tree \<and> brk full_leaf_tree \<noteq> 0 \<and>
   (\<exists>right t' r l.
      split_leaf full_leaf_tree 1 = Inr (15, right, t') \<and>
      right \<noteq> nullptr \<and> load full_leaf_tree right = None \<and>
      load t' right = Some r \<and> load t' 1 = Some l \<and>
      cnt r = 15 \<and> entries r = drop 15 (entries full_leaf) \<and> cnt l = 15 \<and> high_key l = 15 \<and>
      sibling_ptr l = right)"
proof -
  have h1: "load full_leaf_tree 1 = Some full_leaf"
    by (simp add: load_def full_leaf_tree_def nullptr_def)
  have h2: "LeafNode_is_full full_leaf"
    by (simp add: LeafNode_is_full_def full_leaf_def cardinality_eq)
  have h3: "length (entry full_leaf) = cardinality"
    by (simp add: full_leaf_def full_entries_def cardinality_eq)
  have h4: "alloc_ok full_leaf_tree"
    by (auto simp: alloc_ok_def load_def full_leaf_tree_def split: if_splits)
  have h5: "brk full_leaf_tree \<noteq> 0"
    by (simp add: full_leaf_tree_def)
  have c: "cnt full_leaf = 30" by (simp add: full_leaf_def)
  have k: "fst (entry full_leaf ! 14) = 15"
    by (simp add: full_leaf_def full_entries_def)
  from split_leaf_spec [OF h1 h2 h3 h4 h5] show ?thesis
    using h1 h2 h3 h4 h5 by (simp add: c k) blast
qed

lemma InternalNode_split_key:
  "fst (InternalNode_split n raw a) = fst (entry n ! (cnt n - cnt n div 2))"
  by (simp add: InternalNode_split_def Let_def)

lemma InternalNode_split_right:
  "lock (fst (snd (InternalNode_split n raw a))) = 0"
  "sibling_ptr (fst (snd (InternalNode_split n raw a))) = sibling_ptr n"
  "cnt (fst (snd (InternalNode_split n raw a))) = cnt n - (cnt n - cnt n div 2) - 1"
  "level (fst (snd (InternalNode_split n raw a))) = level n"
  "high_key (fst (snd (InternalNode_split n raw a))) = high_key n"
  "entry (fst (snd (InternalNode_split n raw a))) =
     memcpy ((entry raw)[0 := (fst (entry raw ! 0), snd (entry n ! (cnt n - cnt n div 2)))]) 0
       (entry n) (cnt n - cnt n div 2 + 1) (cnt n - (cnt n - cnt n div 2) - 1 + 1)"
  by (simp_all add: InternalNode_split_def Let_def InternalNode_split_ctor_def Node_init_def)

lemma InternalNode_split_left:
  "snd (snd (InternalNode_split n raw a)) =
     n\<lparr>sibling_ptr := a, high_key := fst (entry n ! (cnt n - cnt n div 2)),
       cnt := cnt n - cnt n div 2\<rparr>"
  by (simp add: InternalNode_split_def Let_def)

text \<open>The first \<open>cnt div 2\<close> slots of the new node are slots \<open>half + 1\<close> and on of the old.\<close>

lemma InternalNode_split_right_entry:
  assumes "2 \<le> cnt n" "cnt n < length (entry n)"
  shows "take (cnt n div 2) (entry (fst (snd (InternalNode_split n raw a)))) =
         take (cnt n div 2) (drop (cnt n - cnt n div 2 + 1) (entry n))"
proof -
  let ?h = "cnt n - cnt n div 2"
  from assms(1) have d: "cnt n - ?h - 1 + 1 = cnt n div 2" by simp
  let ?A = "take (cnt n div 2) (drop (?h + 1) (entry n))"
  from assms have "length ?A = cnt n div 2" by simp
  then have "take (cnt n div 2) (?A @ ys) = ?A" for ys
    by (rule take_append_exact)
  then show ?thesis
    by (simp only: InternalNode_split_right d memcpy_def take_0 append_Nil add_0)
qed

lemma keys_InternalNode_split:
  assumes "2 \<le> cnt n" "cnt n < length (entry n)"
  shows "keys (snd (snd (InternalNode_split n raw a))) @
         fst (InternalNode_split n raw a) # keys (fst (snd (InternalNode_split n raw a))) = keys n"
proof -
  let ?h = "cnt n - cnt n div 2"
  let ?e = "entry n"
  from assms have h: "?h < cnt n" "cnt n - ?h - 1 = cnt n div 2 - 1" "?h < length ?e" by simp_all
  have l: "keys (snd (snd (InternalNode_split n raw a))) = map fst (take ?h ?e)"
    by (simp add: keys_def InternalNode_split_left)
  have "take (cnt n div 2 - 1) (entry (fst (snd (InternalNode_split n raw a)))) =
        take (cnt n div 2 - 1) (take (cnt n div 2) (entry (fst (snd (InternalNode_split n raw a)))))"
    by (simp add: min_def)
  also have "\<dots> = take (cnt n div 2 - 1) (drop (?h + 1) ?e)"
    by (simp add: InternalNode_split_right_entry [OF assms] min_def)
  finally have r: "keys (fst (snd (InternalNode_split n raw a))) =
                   map fst (take (cnt n div 2 - 1) (drop (?h + 1) ?e))"
    by (simp add: keys_def InternalNode_split_right h)
  have "take (cnt n) ?e = take ?h ?e @ ?e ! ?h # take (cnt n div 2 - 1) (drop (?h + 1) ?e)"
  proof -
    have "take (cnt n) ?e = take (?h + (cnt n - ?h)) ?e" using h by simp
    also have "\<dots> = take ?h ?e @ take (cnt n - ?h) (drop ?h ?e)" by (rule take_add)
    also have "drop ?h ?e = ?e ! ?h # drop (?h + 1) ?e"
      using h by (simp add: Cons_nth_drop_Suc)
    also have "take (cnt n - ?h) (?e ! ?h # drop (?h + 1) ?e) =
               ?e ! ?h # take (cnt n div 2 - 1) (drop (?h + 1) ?e)"
    proof -
      from assms have "cnt n - ?h = Suc (cnt n div 2 - 1)" by simp
      then show ?thesis by (simp only: take_Suc_Cons)
    qed
    finally show ?thesis .
  qed
  then show ?thesis
    by (simp add: l r InternalNode_split_key keys_def [of n])
qed

lemma children_InternalNode_split:
  assumes "2 \<le> cnt n" "cnt n < length (entry n)"
  shows "children (snd (snd (InternalNode_split n raw a))) @
         children (fst (snd (InternalNode_split n raw a))) = children n"
proof -
  let ?h = "cnt n - cnt n div 2"
  let ?e = "entry n"
  from assms have h: "cnt n - ?h - 1 + 1 = cnt n div 2" "cnt n + 1 = (?h + 1) + cnt n div 2"
    by simp_all
  have l: "children (snd (snd (InternalNode_split n raw a))) = map snd (take (?h + 1) ?e)"
    by (simp add: children_def InternalNode_split_left)
  have r: "children (fst (snd (InternalNode_split n raw a))) =
           map snd (take (cnt n div 2) (drop (?h + 1) ?e))"
    using InternalNode_split_right_entry [OF assms]
    by (simp only: children_def InternalNode_split_right h)
  have "take (cnt n + 1) ?e = take (?h + 1) ?e @ take (cnt n div 2) (drop (?h + 1) ?e)"
    unfolding h(2) by (rule take_add)
  then show ?thesis
    by (simp only: l r children_def [of n] map_append)
qed


lemma leftmost_InternalNode_split_right:
  assumes "2 \<le> cnt n" "cnt n < length (entry n)"
  shows "leftmost_ptr (fst (snd (InternalNode_split n raw a))) =
         snd (entry n ! (cnt n - cnt n div 2 + 1))"
proof -
  let ?r = "fst (snd (InternalNode_split n raw a))"
  from assms have pos: "0 < cnt n div 2" by simp
  then have "entry ?r ! 0 = take (cnt n div 2) (entry ?r) ! 0" by simp
  also have "\<dots> = take (cnt n div 2) (drop (cnt n - cnt n div 2 + 1) (entry n)) ! 0"
    by (simp only: InternalNode_split_right_entry [OF assms])
  also have "\<dots> = entry n ! (cnt n - cnt n div 2 + 1)"
    using pos assms by simp
  finally show ?thesis by (simp add: leftmost_ptr_def)
qed

text \<open>
  C5, as the code has it. \<^verbatim>\<open>InternalNode::split\<close> on a full internal node, with
  \<open>half = cnt - cnt div 2\<close>: the split key is key \<open>half\<close>; it is in neither node, the
  node keeping the keys before it and the new node getting the keys after it; the node
  keeps its children up to child \<open>half\<close>, and the new node gets the children from
  \<open>half + 1\<close> on, so that its leftmost child is child \<open>half + 1\<close> of the node before
  (the constructor stores child \<open>half\<close> there, and the \<^verbatim>\<open>memcpy\<close> overwrites it); the
  node has \<open>cnt = half\<close>, the split key as high key and the new node as sibling; the new
  node has the sibling, the high key and the level the node had, and a free latch.
\<close>

theorem InternalNode_split_spec:
  assumes "InternalNode_is_full n" and "length (entry n) = cardinality"
  shows "fst (InternalNode_split n raw a) = fst (entry n ! (cnt n - cnt n div 2)) \<and>
         keys (snd (snd (InternalNode_split n raw a))) @
           fst (InternalNode_split n raw a) # keys (fst (snd (InternalNode_split n raw a))) =
           keys n \<and>
         children (snd (snd (InternalNode_split n raw a))) @
           children (fst (snd (InternalNode_split n raw a))) = children n \<and>
         cnt (snd (snd (InternalNode_split n raw a))) = cnt n - cnt n div 2 \<and>
         cnt (fst (snd (InternalNode_split n raw a))) = cnt n - (cnt n - cnt n div 2) - 1 \<and>
         leftmost_ptr (fst (snd (InternalNode_split n raw a))) =
           snd (entry n ! (cnt n - cnt n div 2 + 1)) \<and>
         leftmost_ptr (snd (snd (InternalNode_split n raw a))) = leftmost_ptr n \<and>
         high_key (snd (snd (InternalNode_split n raw a))) = fst (entry n ! (cnt n - cnt n div 2)) \<and>
         sibling_ptr (snd (snd (InternalNode_split n raw a))) = a \<and>
         entry (snd (snd (InternalNode_split n raw a))) = entry n \<and>
         level (snd (snd (InternalNode_split n raw a))) = level n \<and>
         lock (snd (snd (InternalNode_split n raw a))) = lock n \<and>
         sibling_ptr (fst (snd (InternalNode_split n raw a))) = sibling_ptr n \<and>
         high_key (fst (snd (InternalNode_split n raw a))) = high_key n \<and>
         level (fst (snd (InternalNode_split n raw a))) = level n \<and>
         lock (fst (snd (InternalNode_split n raw a))) = 0"
proof -
  from assms have c: "2 \<le> cnt n" "cnt n < length (entry n)"
    by (simp_all add: InternalNode_is_full_def cardinality_eq)
  show ?thesis
    using keys_InternalNode_split [OF c, of raw a] children_InternalNode_split [OF c, of raw a]
      leftmost_InternalNode_split_right [OF c, of raw a]
    by (simp add: InternalNode_split_key InternalNode_split_right InternalNode_split_left
        leftmost_ptr_def)
qed

theorem InternalNode_split_spec_witness:
  "InternalNode_is_full full_internal \<and> length (entry full_internal) = cardinality \<and>
   fst (InternalNode_split full_internal zero_node 2) = 16 \<and>
   cnt (snd (snd (InternalNode_split full_internal zero_node 2))) = 15 \<and>
   cnt (fst (snd (InternalNode_split full_internal zero_node 2))) = 13 \<and>
   leftmost_ptr (fst (snd (InternalNode_split full_internal zero_node 2))) = 116 \<and>
   high_key (snd (snd (InternalNode_split full_internal zero_node 2))) = 16 \<and>
   sibling_ptr (snd (snd (InternalNode_split full_internal zero_node 2))) = 2"
proof -
  have h1: "InternalNode_is_full full_internal"
    by (simp add: InternalNode_is_full_def full_internal_def cardinality_eq)
  have h2: "length (entry full_internal) = cardinality"
    by (simp add: full_internal_def full_entries_def cardinality_eq)
  have c: "cnt full_internal = 29" by (simp add: full_internal_def)
  have k: "entry full_internal ! 15 = (16, 115)" "entry full_internal ! 16 = (17, 116)"
    by (simp_all add: full_internal_def full_entries_def)
  from InternalNode_split_spec [OF h1 h2, of zero_node 2] show ?thesis
    using h1 h2 by (simp add: c k)
qed

text \<open>
  C5, as the claim has it: the leftmost child of the new node would be child \<open>half\<close> of
  the node before. On a full node with the children \<open>100, ..., 129\<close> it is child 16,
  not child 15.
\<close>

theorem InternalNode_split_leftmost_counterexample:
  "InternalNode_is_full full_internal \<and> length (entry full_internal) = cardinality \<and>
   snd (entry full_internal ! (cnt full_internal - cnt full_internal div 2)) = 115 \<and>
   leftmost_ptr (fst (snd (InternalNode_split full_internal zero_node 2))) = 116 \<and>
   leftmost_ptr (fst (snd (InternalNode_split full_internal zero_node 2))) \<noteq>
     snd (entry full_internal ! (cnt full_internal - cnt full_internal div 2))"
proof -
  have h1: "InternalNode_is_full full_internal"
    by (simp add: InternalNode_is_full_def full_internal_def cardinality_eq)
  have h2: "length (entry full_internal) = cardinality"
    by (simp add: full_internal_def full_entries_def cardinality_eq)
  have c: "cnt full_internal = 29" by (simp add: full_internal_def)
  have k: "entry full_internal ! 15 = (16, 115)" "entry full_internal ! 16 = (17, 116)"
    by (simp_all add: full_internal_def full_entries_def)
  have "leftmost_ptr (fst (snd (InternalNode_split full_internal zero_node 2))) = 116"
    using leftmost_InternalNode_split_right [of full_internal zero_node 2] h2
    by (simp add: c k cardinality_eq)
  then show ?thesis using h1 h2 by (simp add: c k)
qed


section \<open>Descending a tree of a given shape\<close>

subsection \<open>Bounds\<close>

lemma gt_bound_None [simp]: "gt_bound None k" and gt_bound_Some [simp]: "gt_bound (Some l) k \<longleftrightarrow> l < k"
  by (simp_all add: gt_bound_def)

lemma ge_bound_None [simp]: "ge_bound None k" and ge_bound_Some [simp]: "ge_bound (Some l) k \<longleftrightarrow> l \<le> k"
  by (simp_all add: ge_bound_def)

lemma le_bound_None [simp]: "le_bound k None" and le_bound_Some [simp]: "le_bound k (Some h) \<longleftrightarrow> k \<le> h"
  by (simp_all add: le_bound_def)

lemma lower_le_simps [simp]:
  "lower_le None b" "lower_le (Some x) None \<longleftrightarrow> False" "lower_le (Some x) (Some y) \<longleftrightarrow> x \<le> y"
  by (simp_all add: lower_le_def)

lemma bound_le_simps [simp]:
  "bound_le None hi" "bound_le lo None" "bound_le (Some l) (Some h) \<longleftrightarrow> l \<le> h"
  by (simp_all add: bound_le_def split: option.splits)

lemma gt_bound_imp_ge: "gt_bound lo k \<Longrightarrow> ge_bound lo k"
  by (cases lo) simp_all

lemma lower_le_refl [simp]: "lower_le a a"
  by (cases a) simp_all

lemma lower_le_trans: "lower_le a b \<Longrightarrow> lower_le b c \<Longrightarrow> lower_le a c"
  by (cases a; cases b; cases c) auto

lemma lower_le_gt_bound: "lower_le a b \<Longrightarrow> gt_bound b k \<Longrightarrow> gt_bound a k"
  by (cases a; cases b) auto

lemma lower_le_ge_bound: "lower_le a b \<Longrightarrow> ge_bound b k \<Longrightarrow> ge_bound a k"
  by (cases a; cases b) auto

subsection \<open>The new tree\<close>

lemma new_tree_eq:
  "new_tree st = \<lparr>root = 1, heap = [(1, InternalNode_default (st 1))], brk = 2, storage = st\<rparr>"
  by (simp add: new_tree_def BLinkTree_ctor_def operator_new_def empty_memory_def store_def)

lemma BLinkTree_ctor_new: "BLinkTree_ctor (empty_memory st) = Inr (new_tree st)"
  by (simp add: new_tree_def BLinkTree_ctor_def operator_new_def empty_memory_def)

lemma load_new_tree: "load (new_tree st) p = (if p = 1 then Some (InternalNode_default (st 1)) else None)"
  by (simp add: new_tree_eq load_def nullptr_def)

lemma latch_free [simp]: "\<not> is_locked 0" "\<not> is_obsolete 0"
  by (simp_all add: is_locked_def is_obsolete_def)

lemma quiescent_new_tree:
  assumes "\<forall>a. length (entry (st a)) = cardinality"
  shows "quiescent (new_tree st) [[Place 1 None None]]"
proof -
  let ?n = "InternalNode_default (st 1)"
  have n: "level ?n = 0" "cnt ?n = 0" "sibling_ptr ?n = nullptr" "lock ?n = 0"
    "entry ?n = entry (st 1)"
    by (simp_all add: InternalNode_default_def Node_default_def)
  have "node_ok {} 0 (Place 1 None None) nullptr ?n"
    using assms by (simp add: node_ok_def n keys_def)
  then have "chain (new_tree st) {} 0 [Place 1 None None]"
    by (simp add: chain_def node_rel_def load_new_tree)
  moreover have "brk (new_tree st) = 2"
    by (simp add: new_tree_eq)
  then have "alloc_ok (new_tree st)"
    by (simp add: alloc_ok_def load_new_tree)
  moreover have "root (new_tree st) = 1" "storage (new_tree st) = st"
    by (simp_all add: new_tree_eq)
  ultimately show ?thesis
    using assms by (simp add: quiescent_def shape_def)
qed


subsection \<open>Chains\<close>

lemma nxt_simps [simp]:
  "nxt_addr [] nxt = nxt" "nxt_addr (e # es) nxt = addr e"
  "nxt_lower [] b = b" "nxt_lower (e # es) b = lower e"
  by (simp_all add: nxt_addr_def nxt_lower_def)

lemma nxt_append [simp]:
  "nxt_addr (xs @ ys) nxt = nxt_addr xs (nxt_addr ys nxt)"
  "nxt_lower (xs @ ys) b = nxt_lower xs (nxt_lower ys b)"
  by (cases xs; simp)+

lemma seg_Cons:
  "seg t X lvl (d # ds) nxt b \<longleftrightarrow>
   node_rel t X lvl d (nxt_addr ds nxt) \<and> upper d = nxt_lower ds b \<and> seg t X lvl ds nxt b"
  by (cases ds) auto

lemma seg_append:
  "seg t X lvl (xs @ ys) nxt b \<longleftrightarrow>
   seg t X lvl xs (nxt_addr ys nxt) (nxt_lower ys b) \<and> seg t X lvl ys nxt b"
  by (induction xs) (auto simp: seg_Cons)

lemma node_rel_frame:
  "load t' (addr d) = load t (addr d) \<Longrightarrow> (addr d \<in> X' \<longleftrightarrow> addr d \<in> X) \<Longrightarrow>
   node_rel t' X' lvl d nxt = node_rel t X lvl d nxt"
  by (simp add: node_rel_def node_ok_def)

lemma seg_frame:
  "\<forall>d \<in> set ds. load t' (addr d) = load t (addr d) \<and> (addr d \<in> X' \<longleftrightarrow> addr d \<in> X) \<Longrightarrow>
   seg t' X' lvl ds nxt b = seg t X lvl ds nxt b"
proof (induction ds)
  case Nil
  show ?case by simp
next
  case (Cons d ds)
  from Cons.prems have "node_rel t' X' lvl d m = node_rel t X lvl d m" for m
    by (intro node_rel_frame) simp_all
  moreover from Cons have "seg t' X' lvl ds nxt b = seg t X lvl ds nxt b" by simp
  ultimately show ?case by (simp add: seg_Cons)
qed

lemma node_rel_not_null: "node_rel t X lvl d nxt \<Longrightarrow> addr d \<noteq> nullptr"
  by (auto simp: node_rel_def dest: load_not_null)

lemma seg_not_null: "seg t X lvl ds nxt b \<Longrightarrow> d \<in> set ds \<Longrightarrow> addr d \<noteq> nullptr"
  by (induction ds) (auto simp: seg_Cons dest: node_rel_not_null)

lemma node_rel_upper:
  "node_rel t X lvl d nxt \<Longrightarrow> nxt \<noteq> nullptr \<Longrightarrow> \<exists>h. upper d = Some h \<and> bound_le (lower d) (Some h)"
  by (auto simp: node_rel_def node_ok_def)

lemma seg_lower_mono:
  "seg t X lvl (d # ds) nxt b \<Longrightarrow> e \<in> set ds \<Longrightarrow>
   \<exists>h. upper d = Some h \<and> lower_le (Some h) (lower e)"
proof (induction ds arbitrary: d)
  case Nil
  then show ?case by simp
next
  case (Cons e' ds)
  from Cons.prems(1) have d: "node_rel t X lvl d (addr e')" "upper d = lower e'"
    and rest: "seg t X lvl (e' # ds) nxt b"
    by (simp_all add: seg_Cons)
  from rest have "addr e' \<noteq> nullptr" by (rule seg_not_null) simp
  with d(1) obtain h where h: "upper d = Some h" by (auto dest: node_rel_upper)
  show ?case
  proof (cases "e = e'")
    case True
    with h d(2) show ?thesis by simp
  next
    case False
    with Cons.prems(2) have "e \<in> set ds" by simp
    from Cons.IH [OF rest this] obtain h' where h': "upper e' = Some h'" "lower_le (Some h') (lower e)"
      by blast
    from rest have "node_rel t X lvl e' (nxt_addr ds nxt)" by (simp add: seg_Cons)
    then have "bound_le (lower e') (upper e')" by (auto simp: node_rel_def node_ok_def)
    with h h' d(2) have "lower_le (Some h) (Some h')" by simp
    from this h'(2) have "lower_le (Some h) (lower e)" by (rule lower_le_trans)
    with h show ?thesis by simp
  qed
qed

lemma chain_decomp:
  assumes "chain t X lvl (xs @ d # ds)"
  shows "seg t X lvl xs (addr d) (lower d)" and "node_rel t X lvl d (nxt_addr ds nullptr)"
    and "upper d = nxt_lower ds None" and "seg t X lvl ds nullptr None"
    and "seg t X lvl (d # ds) nullptr None"
  using assms by (simp_all add: chain_def seg_append seg_Cons)

lemma chain_node:
  assumes "chain t X lvl c" "d \<in> set c"
  shows "\<exists>nxt. node_rel t X lvl d nxt"
proof -
  from assms(2) obtain xs ds where "c = xs @ d # ds" by (auto dest: split_list)
  with assms(1) show ?thesis by (auto dest: chain_decomp(2))
qed

lemma covers_unique:
  assumes "chain t X lvl c" "d \<in> set c" "e \<in> set c" "covers d k" "covers e k"
  shows "d = e"
proof (rule ccontr)
  assume ne: "d \<noteq> e"
  have aux: False
    if "c = xs @ d' # ds" "e' \<in> set ds" "covers d' k" "covers e' k" for xs d' ds e'
  proof -
    from assms(1) that(1) have "seg t X lvl (d' # ds) nullptr None"
      by (auto dest: chain_decomp(5))
    from seg_lower_mono [OF this that(2)] obtain h where
      h: "upper d' = Some h" "lower_le (Some h) (lower e')" by blast
    then obtain l where l: "lower e' = Some l" "h \<le> l"
      by (cases "lower e'") simp_all
    from that(3) h(1) have "k \<le> h" by (simp add: covers_def)
    moreover from that(4) l(1) have "l < k" by (simp add: covers_def)
    ultimately show False using l(2) by simp
  qed
  from assms(2) obtain xs ds where c: "c = xs @ d # ds" by (auto dest: split_list)
  with assms(3) ne consider "e \<in> set xs" | "e \<in> set ds" by auto
  then show False
  proof cases
    case 1
    then obtain ys zs where "xs = ys @ e # zs" by (auto dest: split_list)
    with c have "c = ys @ e # (zs @ d # ds)" "d \<in> set (zs @ d # ds)" by simp_all
    from aux [OF this assms(5,4)] show False .
  next
    case 2
    from aux [OF c this assms(4,5)] show False .
  qed
qed


subsection \<open>One step of a loop\<close>

lemma readlock_free:
  "\<not> is_locked (lock n) \<Longrightarrow> \<not> is_obsolete (lock n) \<Longrightarrow> try_readlock n False = (lock n, False)"
  "\<not> is_locked (lock n) \<Longrightarrow> \<not> is_obsolete (lock n) \<Longrightarrow> get_version n False = (lock n, False)"
  by (simp_all add: try_readlock_def get_version_def need_restart_def)

lemma move_right_stop:
  "load t a = Some n \<Longrightarrow> \<not> (sibling_ptr n \<noteq> nullptr \<and> high_key n < k) \<Longrightarrow>
   move_right t k a v = Some (Inr (a, v, False))"
  by (subst move_right.simps) auto

lemma move_right_hop:
  "load t a = Some n \<Longrightarrow> sibling_ptr n \<noteq> nullptr \<Longrightarrow> high_key n < k \<Longrightarrow>
   load t (sibling_ptr n) = Some s \<Longrightarrow> \<not> is_locked (lock s) \<Longrightarrow> \<not> is_obsolete (lock s) \<Longrightarrow>
   \<not> is_locked (lock n) \<Longrightarrow> \<not> is_obsolete (lock n) \<Longrightarrow>
   move_right t k a (lock n) = move_right t k (sibling_ptr n) (lock s)"
  by (subst move_right.simps) (simp add: readlock_free)

lemma traverse_internal_leaf:
  "load t cur = Some c \<Longrightarrow> level c = 0 \<Longrightarrow>
   traverse_internal t k cur v st = Some (Inr (Some (cur, v, st)))"
  by (subst traverse_internal.simps) simp

lemma traverse_internal_step:
  "load t cur = Some c \<Longrightarrow> level c \<noteq> 0 \<Longrightarrow> load t (scan_node c k) = Some ch \<Longrightarrow>
   \<not> is_locked (lock ch) \<Longrightarrow> \<not> is_obsolete (lock ch) \<Longrightarrow>
   \<not> is_locked (lock c) \<Longrightarrow> \<not> is_obsolete (lock c) \<Longrightarrow>
   traverse_internal t k cur (lock c) st =
   traverse_internal t k (scan_node c k) (lock ch)
     (if scan_node c k \<noteq> sibling_ptr c then st @ [cur] else st)"
  by (subst traverse_internal.simps) (simp add: readlock_free)

subsection \<open>Moving right along a chain\<close>

lemma node_okD:
  assumes "node_ok X lvl d nxt n"
  shows "level n = lvl" "length (entry n) = cardinality"
    "lvl = 0 \<Longrightarrow> cnt n \<le> cardinality" "lvl \<noteq> 0 \<Longrightarrow> cnt n < cardinality"
    "sibling_ptr n = nxt" "nxt = nullptr \<longleftrightarrow> upper d = None"
    "nxt \<noteq> nullptr \<Longrightarrow> upper d = Some (high_key n)"
    "is_locked (lock n) \<longleftrightarrow> addr d \<in> X" "\<not> is_obsolete (lock n)"
    "sorted (keys n)" "\<And>k. k \<in> set (keys n) \<Longrightarrow> ge_bound (lower d) k \<and> le_bound k (upper d)"
    "bound_le (lower d) (upper d)"
  using assms by (simp_all add: node_ok_def split: if_splits)

lemma node_ok_cnt: "node_ok X lvl d nxt n \<Longrightarrow> cnt n \<le> length (entry n)"
  by (auto simp: node_ok_def split: if_splits)

lemma node_relE:
  assumes "node_rel t X lvl d nxt"
  obtains n where "load t (addr d) = Some n" "node_ok X lvl d nxt n"
  using assms by (auto simp: node_rel_def)

lemma move_right_seg:
  "seg t X lvl (d # ds) nullptr None \<Longrightarrow> \<forall>e \<in> set (d # ds). addr e \<notin> X \<Longrightarrow>
   ge_bound (lower d) k \<Longrightarrow> load t (addr d) = Some n \<Longrightarrow>
   \<exists>e m. e \<in> set (d # ds) \<and> load t (addr e) = Some m \<and>
         move_right t k (addr d) (lock n) = Some (Inr (addr e, lock m, False)) \<and>
         ge_bound (lower e) k \<and> le_bound k (upper e) \<and>
         (gt_bound (lower d) k \<longrightarrow> gt_bound (lower e) k) \<and> lower_le (lower d) (lower e)"
proof (induction ds arbitrary: d n)
  case Nil
  from Nil.prems(1,4) have ok: "node_ok X lvl d nullptr n" "upper d = None"
    by (auto simp: node_rel_def)
  then have "sibling_ptr n = nullptr" by (simp add: node_okD(5))
  with Nil.prems(4) have "move_right t k (addr d) (lock n) = Some (Inr (addr d, lock n, False))"
    by (simp add: move_right_stop)
  with Nil.prems ok(2) show ?case by auto
next
  case (Cons e' ds)
  from Cons.prems(1,4) have ok: "node_ok X lvl d (addr e') n" and up: "upper d = lower e'"
    and rest: "seg t X lvl (e' # ds) nullptr None"
    by (auto simp: seg_Cons node_rel_def)
  from rest have nn: "addr e' \<noteq> nullptr" by (rule seg_not_null) simp
  from node_okD(5,7-9,12) [OF ok] nn Cons.prems(2)
  have sib: "sibling_ptr n = addr e'" "upper d = Some (high_key n)"
    and free: "\<not> is_locked (lock n)" "\<not> is_obsolete (lock n)"
    and ble: "bound_le (lower d) (upper d)"
    by simp_all
  show ?case
  proof (cases "high_key n < k")
    case True
    from rest obtain s where s: "load t (addr e') = Some s" "node_ok X lvl e' (nxt_addr ds nullptr) s"
      by (auto simp: seg_Cons node_rel_def)
    from node_okD(8,9) [OF s(2)] Cons.prems(2)
    have sfree: "\<not> is_locked (lock s)" "\<not> is_obsolete (lock s)"
      by simp_all
    have hop: "move_right t k (addr d) (lock n) = move_right t k (addr e') (lock s)"
      using move_right_hop [OF Cons.prems(4) _ True _ sfree free] nn s(1) sib(1) by simp
    from up sib(2) have "lower e' = Some (high_key n)" by simp
    with True have ab: "gt_bound (lower e') k" by simp
    then have "ge_bound (lower e') k" by (rule gt_bound_imp_ge)
    from Cons.IH [OF rest _ this s(1)] Cons.prems(2)
    obtain e m where e: "e \<in> set (e' # ds)" "load t (addr e) = Some m"
      "move_right t k (addr e') (lock s) = Some (Inr (addr e, lock m, False))"
      "ge_bound (lower e) k" "le_bound k (upper e)" "gt_bound (lower e') k \<longrightarrow> gt_bound (lower e) k"
      "lower_le (lower e') (lower e)"
      by auto
    from ble sib(2) up have "lower_le (lower d) (lower e')"
      by (cases "lower d") simp_all
    from this e(7) have "lower_le (lower d) (lower e)" by (rule lower_le_trans)
    with e ab hop show ?thesis by auto
  next
    case False
    with Cons.prems(4) have "move_right t k (addr d) (lock n) = Some (Inr (addr d, lock n, False))"
      by (simp add: move_right_stop)
    moreover from False sib(2) have "le_bound k (upper d)" by (simp add: not_less)
    ultimately show ?thesis using Cons.prems by auto
  qed
qed


subsection \<open>Facts of a shape\<close>

lemma shape_chain: "shape t X A \<Longrightarrow> l < length A \<Longrightarrow> chain t X l (A ! l)"
  by (simp add: shape_def)

lemma shape_kids:
  "shape t X A \<Longrightarrow> Suc l < length A \<Longrightarrow> d \<in> set (A ! Suc l) \<Longrightarrow> load t (addr d) = Some n \<Longrightarrow>
   kids_ok (A ! l) (lower d) n"
  by (fastforce simp: shape_def)

lemma chain_place:
  assumes "chain t X l c" "d \<in> set c"
  obtains nxt n where "load t (addr d) = Some n" "node_ok X l d nxt n"
  using chain_node [OF assms] by (auto simp: node_rel_def)

lemma ge_bound_lower_le: "ge_bound lo k \<longleftrightarrow> lower_le lo (Some k)"
  by (cases lo) simp_all

lemma length_children: "cnt n < length (entry n) \<Longrightarrow> length (children n) = cnt n + 1"
  by (simp add: children_def)

lemma nth_children: "j \<le> cnt n \<Longrightarrow> cnt n < length (entry n) \<Longrightarrow> children n ! j = snd (entry n ! j)"
  by (simp add: children_def)

lemma kids_ok_nth:
  assumes "kids_ok below lo n" "cnt n < length (entry n)" "j \<le> cnt n"
  shows "\<exists>h. Place (snd (entry n ! j)) (if j = 0 then lo else Some (fst (entry n ! (j - 1)))) h
              \<in> set below"
proof -
  from assms(2) have len: "length (children n) = cnt n + 1" by (rule length_children)
  from assms(2) have cl: "cnt n \<le> length (entry n)" by simp
  from assms(3) len have "j < length (children n)" by simp
  with assms(1) have "\<exists>h. Place (children n ! j) ((lo # map Some (keys n)) ! j) h \<in> set below"
    unfolding kids_ok_def by (rule list_all2_nthD)
  moreover have "(lo # map Some (keys n)) ! j = (if j = 0 then lo else Some (fst (entry n ! (j - 1))))"
    using assms(3) cl by (cases j) (simp_all add: length_keys nth_keys)
  ultimately show ?thesis using assms by (simp add: nth_children)
qed


subsection \<open>The descent\<close>

lemma scan_node_hop:
  "sibling_ptr n \<noteq> nullptr \<Longrightarrow> high_key n < k \<Longrightarrow> scan_node n k = sibling_ptr n"
  by (simp add: scan_node_def)

lemma scan_node_child:
  "\<not> (sibling_ptr n \<noteq> nullptr \<and> high_key n < k) \<Longrightarrow>
   scan_node n k = snd (entry n ! InternalNode_find_lowerbound n k)"
  by (auto simp: scan_node_def)

lemma descent_Cons:
  assumes "descent A k l path leaf" "d \<in> set (A ! Suc l)" "covers d k"
    "lower_le (lower d) (lower (hd (path @ [leaf])))"
  shows "descent A k (Suc l) (d # path) leaf"
proof -
  from assms(1) have len: "length path = l"
    and el: "\<And>i. i < l \<Longrightarrow> path ! i \<in> set (A ! (l - i)) \<and> covers (path ! i) k"
    and leaf: "leaf \<in> set (A ! 0)" "gt_bound (lower leaf) k"
    and suc: "successively lower_le (map lower (path @ [leaf]))"
    by (simp_all add: descent_def)
  have "(d # path) ! i \<in> set (A ! (Suc l - i)) \<and> covers ((d # path) ! i) k" if "i < Suc l" for i
  proof (cases i)
    case 0
    with assms(2,3) show ?thesis by simp
  next
    case (Suc i')
    with that el [of i'] show ?thesis by simp
  qed
  moreover have "successively lower_le (map lower ((d # path) @ [leaf]))"
    using suc assms(4) by (cases "path @ [leaf]") (simp_all add: successively_Cons)
  ultimately show ?thesis using len leaf by (simp add: descent_def)
qed

text \<open>Two places of chains at different levels have different addresses.\<close>

lemma levels_apart:
  assumes "chain t X l c" "chain t X l' c'" "d \<in> set c" "d' \<in> set c'" "l \<noteq> l'"
  shows "addr d \<noteq> addr d'"
proof
  assume eq: "addr d = addr d'"
  from assms(1,3) obtain nxt n where n: "load t (addr d) = Some n" "node_ok X l d nxt n"
    by (rule chain_place)
  from assms(2,4) obtain nxt' n' where n': "load t (addr d') = Some n'" "node_ok X l' d' nxt' n'"
    by (rule chain_place)
  from n(1) n'(1) eq have "n = n'" by simp
  with node_okD(1) [OF n(2)] node_okD(1) [OF n'(2)] assms(5) show False by simp
qed

lemma descend_stay:
  assumes sh: "shape t {} A" and l: "Suc l < length A"
    and below: "\<forall>xs d ds n st. A ! l = xs @ d # ds \<longrightarrow> gt_bound (lower d) k \<longrightarrow>
        load t (addr d) = Some n \<longrightarrow>
        (\<exists>leaf m path. traverse_internal t k (addr d) (lock n) st =
            Some (Inr (Some (addr leaf, lock m, st @ map addr path))) \<and>
          load t (addr leaf) = Some m \<and> descent A k l path leaf \<and>
          lower_le (lower d) (lower (hd (path @ [leaf]))))"
    and d: "d \<in> set (A ! Suc l)" "load t (addr d) = Some n" "node_ok {} (Suc l) d nxt n"
    and cov: "covers d k" and stay: "\<not> (sibling_ptr n \<noteq> nullptr \<and> high_key n < k)"
  shows "\<exists>leaf m path. traverse_internal t k (addr d) (lock n) st =
            Some (Inr (Some (addr leaf, lock m, st @ map addr (d # path)))) \<and>
          load t (addr leaf) = Some m \<and> descent A k (Suc l) (d # path) leaf"
proof -
  let ?j = "InternalNode_find_lowerbound n k"
  from node_okD(1,2,4,8,9) [OF d(3)]
  have n: "level n \<noteq> 0" "cnt n < length (entry n)" "\<not> is_locked (lock n)" "\<not> is_obsolete (lock n)"
    by simp_all
  have j: "?j \<le> cnt n" by (rule InternalNode_find_lowerbound_spec)
  from stay have sc: "scan_node n k = snd (entry n ! ?j)" by (rule scan_node_child)
  from shape_kids [OF sh l d(1,2)] have kids: "kids_ok (A ! l) (lower d) n" .
  have "\<exists>lc h. Place (snd (entry n ! ?j)) lc h \<in> set (A ! l) \<and> gt_bound lc k \<and>
          lower_le (lower d) lc"
  proof (cases "?j = 0")
    case True
    with kids_ok_nth [OF kids n(2) j] cov show ?thesis
      by (auto simp: covers_def)
  next
    case False
    then have "?j - 1 < ?j" by simp
    then have lt: "fst (entry n ! (?j - 1)) < k" by (rule InternalNode_find_lowerbound_spec)
    from False j have "?j - 1 < cnt n" by simp
    with n(2) have "fst (entry n ! (?j - 1)) \<in> set (keys n)"
      by (auto simp: keys_conv_nth)
    from node_okD(11) [OF d(3) this] have "lower_le (lower d) (Some (fst (entry n ! (?j - 1))))"
      by (simp add: ge_bound_lower_le)
    with kids_ok_nth [OF kids n(2) j] False lt show ?thesis
      by auto
  qed
  then obtain lc h where c: "Place (snd (entry n ! ?j)) lc h \<in> set (A ! l)"
    and abc: "gt_bound lc k" and ledc: "lower_le (lower d) lc"
    by blast
  define c where "c = Place (snd (entry n ! ?j)) lc h"
  have cs: "addr c = snd (entry n ! ?j)" "lower c = lc" "c \<in> set (A ! l)"
    using c by (simp_all add: c_def)
  from l have l': "l < length A" by simp
  note chl = shape_chain [OF sh l'] and chu = shape_chain [OF sh l]
  from chl cs(3) obtain nxt' ch where ch: "load t (addr c) = Some ch" "node_ok {} l c nxt' ch"
    by (rule chain_place)
  from node_okD(8,9) [OF ch(2)] have cfree: "\<not> is_locked (lock ch)" "\<not> is_obsolete (lock ch)"
    by simp_all
  have ne: "addr c \<noteq> sibling_ptr n"
  proof (cases "sibling_ptr n = nullptr")
    case True
    with ch(1) show ?thesis by (auto dest: load_not_null)
  next
    case False
    with node_okD(5) [OF d(3)] have nx: "nxt = sibling_ptr n" "nxt \<noteq> nullptr" by simp_all
    from d(1) obtain xs ds where dec: "A ! Suc l = xs @ d # ds"
      by (auto dest: split_list)
    with chu have "chain t {} (Suc l) (xs @ d # ds)" by simp
    from chain_decomp(2) [OF this] d(2) have "node_ok {} (Suc l) d (nxt_addr ds nullptr) n"
      by (auto simp: node_rel_def)
    from node_okD(5) [OF this] False obtain e ds' where ds: "ds = e # ds'" "sibling_ptr n = addr e"
      by (cases ds) simp_all
    with dec have "e \<in> set (A ! Suc l)" by simp
    from levels_apart [OF chl chu cs(3) this] ds(2) show ?thesis by simp
  qed
  have step: "traverse_internal t k (addr d) (lock n) st =
              traverse_internal t k (addr c) (lock ch) (st @ [addr d])"
    using traverse_internal_step [OF d(2) n(1), of k ch st] ch(1) cfree n(3,4) sc ne cs(1)
    by simp
  from cs(3) obtain xs' ds' where dec': "A ! l = xs' @ c # ds'" by (auto dest: split_list)
  from abc cs(2) have abc': "gt_bound (lower c) k" by simp
  from below [rule_format, OF dec' abc' ch(1), of "st @ [addr d]"] obtain leaf m path where
    r: "traverse_internal t k (addr c) (lock ch) (st @ [addr d]) =
          Some (Inr (Some (addr leaf, lock m, (st @ [addr d]) @ map addr path)))"
      "load t (addr leaf) = Some m" "descent A k l path leaf"
      "lower_le (lower c) (lower (hd (path @ [leaf])))"
    by blast
  from ledc cs(2) have "lower_le (lower d) (lower c)" by simp
  from this r(4) have le: "lower_le (lower d) (lower (hd (path @ [leaf])))"
    by (rule lower_le_trans)
  from step r(1) have "traverse_internal t k (addr d) (lock n) st =
      Some (Inr (Some (addr leaf, lock m, st @ map addr (d # path))))"
    by simp
  with descent_Cons [OF r(3) d(1) cov le] r(2) show ?thesis by blast
qed


lemma descend_level:
  assumes sh: "shape t {} A" and l: "Suc l < length A"
    and below: "\<forall>xs d ds n st. A ! l = xs @ d # ds \<longrightarrow> gt_bound (lower d) k \<longrightarrow>
        load t (addr d) = Some n \<longrightarrow>
        (\<exists>leaf m path. traverse_internal t k (addr d) (lock n) st =
            Some (Inr (Some (addr leaf, lock m, st @ map addr path))) \<and>
          load t (addr leaf) = Some m \<and> descent A k l path leaf \<and>
          lower_le (lower d) (lower (hd (path @ [leaf]))))"
  shows "A ! Suc l = xs @ d # ds \<Longrightarrow> gt_bound (lower d) k \<Longrightarrow> load t (addr d) = Some n \<Longrightarrow>
        \<exists>leaf m path. traverse_internal t k (addr d) (lock n) st =
            Some (Inr (Some (addr leaf, lock m, st @ map addr path))) \<and>
          load t (addr leaf) = Some m \<and> descent A k (Suc l) path leaf \<and>
          lower_le (lower d) (lower (hd (path @ [leaf])))"
proof (induction ds arbitrary: xs d n)
  case Nil
  note ch = shape_chain [OF sh l]
  from ch Nil.prems(1) have "chain t {} (Suc l) (xs @ [d])" by simp
  from chain_decomp(2,3) [OF this] Nil.prems(3)
  have ok: "node_ok {} (Suc l) d nullptr n" and up: "upper d = None"
    by (auto simp: node_rel_def)
  from node_okD(5) [OF ok] have stay: "\<not> (sibling_ptr n \<noteq> nullptr \<and> high_key n < k)" by simp
  from up Nil.prems(2) have cov: "covers d k" by (simp add: covers_def)
  from Nil.prems(1) have mem: "d \<in> set (A ! Suc l)" by simp
  from descend_stay [OF sh l below mem Nil.prems(3) ok cov stay, where st = st]
  obtain leaf m path where
    "traverse_internal t k (addr d) (lock n) st =
       Some (Inr (Some (addr leaf, lock m, st @ map addr (d # path))))"
    "load t (addr leaf) = Some m" "descent A k (Suc l) (d # path) leaf"
    by blast
  moreover have "lower_le (lower d) (lower (hd ((d # path) @ [leaf])))" by simp
  ultimately show ?case by blast
next
  case (Cons e' ds)
  note ch = shape_chain [OF sh l]
  from ch Cons.prems(1) have "chain t {} (Suc l) (xs @ d # e' # ds)" by simp
  from chain_decomp(2,3,4) [OF this]
  have rel: "node_rel t {} (Suc l) d (addr e')" and up: "upper d = lower e'"
    and rest: "seg t {} (Suc l) (e' # ds) nullptr None"
    by simp_all
  from rel Cons.prems(3) have ok: "node_ok {} (Suc l) d (addr e') n" by (auto simp: node_rel_def)
  from rest have nn: "addr e' \<noteq> nullptr" by (rule seg_not_null) simp
  from node_okD(1,5,7-9,12) [OF ok] nn
  have n: "level n \<noteq> 0" "sibling_ptr n = addr e'" "upper d = Some (high_key n)"
    "\<not> is_locked (lock n)" "\<not> is_obsolete (lock n)" "bound_le (lower d) (upper d)"
    by simp_all
  show ?case
  proof (cases "high_key n < k")
    case True
    from rest obtain s where s: "load t (addr e') = Some s" "node_ok {} (Suc l) e' (nxt_addr ds nullptr) s"
      by (auto simp: seg_Cons node_rel_def)
    from node_okD(8,9) [OF s(2)] have sfree: "\<not> is_locked (lock s)" "\<not> is_obsolete (lock s)"
      by simp_all
    from n(2) nn True have sc: "scan_node n k = addr e'" by (simp add: scan_node_hop)
    have step: "traverse_internal t k (addr d) (lock n) st = traverse_internal t k (addr e') (lock s) st"
      using traverse_internal_step [OF Cons.prems(3) n(1), of k s st] s(1) sfree n(4,5) sc n(2)
      by simp
    from up n(3) have le': "lower e' = Some (high_key n)" by simp
    with True have ab: "gt_bound (lower e') k" by simp
    from Cons.prems(1) have "A ! Suc l = (xs @ [d]) @ e' # ds" by simp
    from Cons.IH [OF this ab s(1)] obtain leaf m path where
      r: "traverse_internal t k (addr e') (lock s) st =
            Some (Inr (Some (addr leaf, lock m, st @ map addr path)))"
        "load t (addr leaf) = Some m" "descent A k (Suc l) path leaf"
        "lower_le (lower e') (lower (hd (path @ [leaf])))"
      by blast
    from n(6) n(3) le' have "lower_le (lower d) (lower e')" by (cases "lower d") simp_all
    from this r(4) have "lower_le (lower d) (lower (hd (path @ [leaf])))" by (rule lower_le_trans)
    with r step show ?thesis by auto
  next
    case False
    with n(3) have cov: "covers d k" using Cons.prems(2) by (simp add: covers_def not_less)
    from False have stay: "\<not> (sibling_ptr n \<noteq> nullptr \<and> high_key n < k)" by simp
    from Cons.prems(1) have mem: "d \<in> set (A ! Suc l)" by simp
    from descend_stay [OF sh l below mem Cons.prems(3) ok cov stay, where st = st]
    obtain leaf m path where
      "traverse_internal t k (addr d) (lock n) st =
         Some (Inr (Some (addr leaf, lock m, st @ map addr (d # path))))"
      "load t (addr leaf) = Some m" "descent A k (Suc l) (d # path) leaf"
      by blast
    moreover have "lower_le (lower d) (lower (hd ((d # path) @ [leaf])))" by simp
    ultimately show ?thesis by blast
  qed
qed

lemma descend:
  assumes sh: "shape t {} A"
  shows "l < length A \<Longrightarrow> A ! l = xs @ d # ds \<Longrightarrow> gt_bound (lower d) k \<Longrightarrow>
         load t (addr d) = Some n \<Longrightarrow>
         \<exists>leaf m path. traverse_internal t k (addr d) (lock n) st =
            Some (Inr (Some (addr leaf, lock m, st @ map addr path))) \<and>
          load t (addr leaf) = Some m \<and> descent A k l path leaf \<and>
          lower_le (lower d) (lower (hd (path @ [leaf])))"
proof (induction l arbitrary: xs d ds n st)
  case 0
  from shape_chain [OF sh 0(1)] 0(2) have mem: "d \<in> set (A ! 0)" and ch: "chain t {} 0 (A ! 0)"
    by simp_all
  from ch mem obtain nxt n' where "load t (addr d) = Some n'" "node_ok {} 0 d nxt n'"
    by (rule chain_place)
  with 0(4) node_okD(1) [of "{}" 0 d nxt n'] have "level n = 0" by simp
  with 0(4) have "traverse_internal t k (addr d) (lock n) st = Some (Inr (Some (addr d, lock n, st)))"
    by (simp add: traverse_internal_leaf)
  moreover from mem 0(3) have "descent A k 0 [] d"
    by (simp add: descent_def)
  ultimately show ?case using 0(4) by (intro exI [of _ d] exI [of _ n] exI [of _ "[]"]) simp
next
  case (Suc l)
  from Suc.prems(1) have "l < length A" by simp
  from Suc.IH [OF this]
  have below: "\<forall>xs d ds n st. A ! l = xs @ d # ds \<longrightarrow> gt_bound (lower d) k \<longrightarrow>
        load t (addr d) = Some n \<longrightarrow>
        (\<exists>leaf m path. traverse_internal t k (addr d) (lock n) st =
            Some (Inr (Some (addr leaf, lock m, st @ map addr path))) \<and>
          load t (addr leaf) = Some m \<and> descent A k l path leaf \<and>
          lower_le (lower d) (lower (hd (path @ [leaf]))))"
    by blast
  show ?case
    by (rule descend_level [OF sh Suc.prems(1) below Suc.prems(2-4)])
qed


subsection \<open>The latch bits\<close>

lemma is_locked_bit: "is_locked v \<longleftrightarrow> bit v 1"
proof
  assume "is_locked v"
  then have "bit (v AND 2) 1 = bit (2 :: u64) 1" by (simp add: is_locked_def)
  then show "bit v 1" by (simp add: bit_and_iff bit_2_iff)
next
  assume "bit v 1"
  then have "v AND 2 = 2"
    by (intro bit_eqI) (auto simp only: bit_and_iff bit_2_iff)
  then show "is_locked v" by (simp add: is_locked_def)
qed

lemma is_obsolete_bit: "is_obsolete v \<longleftrightarrow> bit v 0"
proof
  assume "is_obsolete v"
  then have "bit (v AND 1) 0 = bit (1 :: u64) 0" by (simp add: is_obsolete_def)
  then show "bit v 0" by (simp add: bit_and_iff bit_1_iff)
next
  assume "bit v 0"
  then have "v AND 1 = 1"
    by (intro bit_eqI) (auto simp only: bit_and_iff bit_1_iff)
  then show "is_obsolete v" by (simp add: is_obsolete_def)
qed

lemma latch_parity:
  "is_obsolete v \<longleftrightarrow> odd (unat v)" "is_locked v \<longleftrightarrow> odd (unat v div 2)"
proof -
  have b: "bit v n \<longleftrightarrow> bit (unat v) n" for n
    by (simp add: bit_unsigned_iff)
  have "bit (unat v) 0 \<longleftrightarrow> odd (unat v)" by (simp only: bit_0)
  then show "is_obsolete v \<longleftrightarrow> odd (unat v)"
    by (simp only: is_obsolete_bit b)
  have "bit (unat v) 1 \<longleftrightarrow> odd (unat v div 2)"
    by (simp add: bit_iff_odd_drop_bit drop_bit_eq_div)
  then show "is_locked v \<longleftrightarrow> odd (unat v div 2)"
    by (simp only: is_locked_bit b)
qed

lemma unat_add2_mod4: "unat ((v :: u64) + 2) mod 4 = (unat v + 2) mod 4"
proof -
  have "unat (v + 2) = (unat v + 2) mod 2 ^ 64"
    by (simp add: unat_word_ariths)
  moreover have "(4 :: nat) dvd 2 ^ 64" by simp
  ultimately show ?thesis by (simp only: mod_mod_cancel)
qed

lemma latch_mod4:
  "\<not> is_locked v \<and> \<not> is_obsolete v \<longleftrightarrow> unat v mod 4 = 0"
  "is_locked v \<and> \<not> is_obsolete v \<longleftrightarrow> unat v mod 4 = 2"
  unfolding latch_parity by presburger+

lemma latch_lock:
  assumes "\<not> is_locked v" "\<not> is_obsolete v"
  shows "is_locked (v + 2)" "\<not> is_obsolete (v + 2)"
proof -
  from assms have "unat v mod 4 = 0" by (simp add: latch_mod4(1) [symmetric])
  then have "unat (v + 2) mod 4 = 2" unfolding unat_add2_mod4 by presburger
  then show "is_locked (v + 2)" "\<not> is_obsolete (v + 2)"
    by (simp_all add: latch_mod4(2) [symmetric])
qed

lemma latch_unlock:
  assumes "is_locked v" "\<not> is_obsolete v"
  shows "\<not> is_locked (v + 2)" "\<not> is_obsolete (v + 2)"
proof -
  from assms have "unat v mod 4 = 2" by (simp add: latch_mod4(2) [symmetric])
  then have "unat (v + 2) mod 4 = 0" unfolding unat_add2_mod4 by presburger
  then show "\<not> is_locked (v + 2)" "\<not> is_obsolete (v + 2)"
    by (simp_all add: latch_mod4(1) [symmetric])
qed


subsection \<open>The descent from the root\<close>

lemma quiescent_top:
  assumes "quiescent t A"
  shows "A ! (length A - 1) = [Place (root t) None None]" and "shape t {} A" and "A \<noteq> []"
proof -
  from assms show sh: "shape t {} A" and ne: "A \<noteq> []"
    by (simp_all add: quiescent_def shape_def)
  from assms obtain d where d: "last A = [d]"
    by (cases "last A") (simp_all add: quiescent_def)
  from ne have la: "last A = A ! (length A - 1)" by (rule last_conv_nth)
  from ne have "length A - 1 < length A" by simp
  from shape_chain [OF sh this] la d have "chain t {} (length A - 1) [d]" by simp
  then have "lower d = None" "upper d = None" by (simp_all add: chain_def)
  moreover from sh d have "root t = addr d" by (simp add: shape_def)
  ultimately have "d = Place (root t) None None" by (cases d) simp
  with la d show "A ! (length A - 1) = [Place (root t) None None]" by simp
qed

lemma successively_last_mono:
  assumes "successively lower_le (map lower (path @ [a]))" "lower_le (lower a) (lower b)"
  shows "successively lower_le (map lower (path @ [b]))"
  using assms
proof (induction path)
  case Nil
  show ?case by simp
next
  case (Cons d path)
  show ?case
  proof (cases path)
    case Nil
    with Cons.prems show ?thesis by (auto simp: successively_Cons intro: lower_le_trans)
  next
    case (Cons e es)
    with Cons.prems Cons.IH show ?thesis by (simp add: successively_Cons)
  qed
qed

lemma traverse_ok:
  assumes q: "quiescent t A"
  shows "\<exists>leaf m path. traverse_to_leafnode t k = Some (Inr (addr leaf, lock m, map addr path)) \<and>
           load t (addr leaf) = Some m \<and> route A k path leaf"
proof -
  note top = quiescent_top [OF q]
  let ?r = "Place (root t) None None"
  from top(3) have hl: "length A - 1 < length A" by simp
  from shape_chain [OF top(2) hl] top(1) have "chain t {} (length A - 1) [?r]" by simp
  then obtain nxt c where c: "load t (root t) = Some c" "node_ok {} (length A - 1) ?r nxt c"
    by (rule chain_place [where d = ?r]) simp_all
  from node_okD(8,9) [OF c(2)] have cfree: "\<not> is_locked (lock c)" "\<not> is_obsolete (lock c)"
    by simp_all
  from top(1) have dec: "A ! (length A - 1) = [] @ ?r # []" by simp
  from descend [OF top(2) hl dec, of k c "[]"] c(1) obtain leaf0 m0 path where
    d: "traverse_internal t k (root t) (lock c) [] = Some (Inr (Some (addr leaf0, lock m0, map addr path)))"
      "load t (addr leaf0) = Some m0" "descent A k (length A - 1) path leaf0"
    by auto
  from d(3) have l0: "leaf0 \<in> set (A ! 0)" "gt_bound (lower leaf0) k" "length path = length A - 1"
    and pth: "\<forall>i < length A - 1. path ! i \<in> set (A ! (length A - 1 - i)) \<and> covers (path ! i) k"
    and suc: "successively lower_le (map lower (path @ [leaf0]))"
    by (simp_all add: descent_def)
  from top(3) have "0 < length A" by simp
  note ch0 = shape_chain [OF top(2) this]
  from l0(1) obtain xs ds where dec0: "A ! 0 = xs @ leaf0 # ds" by (auto dest: split_list)
  with ch0 have sg: "seg t {} 0 (leaf0 # ds) nullptr None"
    by (auto dest: chain_decomp(5))
  from l0(2) have "ge_bound (lower leaf0) k" by (rule gt_bound_imp_ge)
  from move_right_seg [OF sg _ this d(2)] l0(2) obtain leaf m where
    e: "leaf \<in> set (leaf0 # ds)" "load t (addr leaf) = Some m"
      "move_right t k (addr leaf0) (lock m0) = Some (Inr (addr leaf, lock m, False))"
      "le_bound k (upper leaf)" "gt_bound (lower leaf) k" "lower_le (lower leaf0) (lower leaf)"
    by auto
  from e(1) dec0 have mem: "leaf \<in> set (A ! 0)" by auto
  from successively_last_mono [OF suc e(6)] pth l0(3) mem e(4,5)
  have "route A k path leaf" by (simp add: route_def covers_def)
  moreover have "traverse_to_leafnode t k = Some (Inr (addr leaf, lock m, map addr path))"
    by (subst traverse_to_leafnode.simps) (simp add: c(1) readlock_free cfree d(1) e(3))
  ultimately show ?thesis using e(2) by blast
qed

lemma lookup_ok:
  assumes q: "quiescent t A"
  shows "\<exists>leaf m. BLinkTree_lookup t k = Some (Inr (LeafNode_find m k)) \<and>
           load t (addr leaf) = Some m \<and> leaf \<in> set (A ! 0) \<and> covers leaf k"
proof -
  from traverse_ok [OF q, of k] obtain leaf m path where
    t: "traverse_to_leafnode t k = Some (Inr (addr leaf, lock m, map addr path))"
      "load t (addr leaf) = Some m" "route A k path leaf"
    by blast
  from t(3) have mem: "leaf \<in> set (A ! 0)" "covers leaf k" by (simp_all add: route_def)
  from quiescent_top(2,3) [OF q] have "chain t {} 0 (A ! 0)" by (auto intro: shape_chain)
  from this mem(1) obtain nxt n where "load t (addr leaf) = Some n" "node_ok {} 0 leaf nxt n"
    by (rule chain_place)
  with t(2) node_okD(8,9) [of "{}" 0 leaf nxt n]
  have free: "\<not> is_locked (lock m)" "\<not> is_obsolete (lock m)" by simp_all
  have "BLinkTree_lookup t k = Some (Inr (LeafNode_find m k))"
    by (subst BLinkTree_lookup.simps) (simp add: t(1,2) readlock_free free)
  with t(2) mem show ?thesis by blast
qed



section \<open>A tree that was just constructed\<close>

lemma fresh_root:
  "load (new_tree st) (root (new_tree st)) = Some (InternalNode_default (st 1))"
  "root (new_tree st) = 1"
proof -
  show r: "root (new_tree st) = 1" by (simp add: new_tree_eq)
  show "load (new_tree st) (root (new_tree st)) = Some (InternalNode_default (st 1))"
    unfolding r by (simp add: load_new_tree)
qed

lemma fresh_root_fields:
  "lock (InternalNode_default raw) = 0" "cnt (InternalNode_default raw) = 0"
  "level (InternalNode_default raw) = 0" "sibling_ptr (InternalNode_default raw) = nullptr"
  by (simp_all add: InternalNode_default_def Node_default_def)

lemma traverse_fresh:
  "traverse_to_leafnode (new_tree st) k = Some (Inr (1, 0, []))"
proof -
  let ?n = "InternalNode_default (st 1)"
  have free: "\<not> is_locked (lock ?n)" "\<not> is_obsolete (lock ?n)"
    by (simp_all add: fresh_root_fields)
  have l: "load (new_tree st) 1 = Some ?n" by (simp add: load_new_tree)
  have "traverse_internal (new_tree st) k 1 0 [] = Some (Inr (Some (1, 0, [])))"
    using l by (rule traverse_internal_leaf) (simp add: fresh_root_fields)
  moreover have "move_right (new_tree st) k 1 0 = Some (Inr (1, 0, False))"
    using l by (rule move_right_stop) (simp add: fresh_root_fields)
  ultimately show ?thesis
    by (subst traverse_to_leafnode.simps)
      (simp add: fresh_root(2) l readlock_free [OF free] fresh_root_fields)
qed

lemma upgrade_free:
  "try_upgrade_writelock n (lock n) False = (n\<lparr>lock := lock n + 2\<rparr>, False)"
  by (simp add: try_upgrade_writelock_def compare_exchange_strong_def)

text \<open>
  C7. On the tree the constructor returns, \<^verbatim>\<open>lookup(k)\<close> returns 0 and \<^verbatim>\<open>remove(k)\<close>
  returns false, for every key \<open>k\<close> and whatever the storage held before; neither
  ends with an error.
\<close>

theorem fresh_tree_lookup_remove:
  "BLinkTree_ctor (empty_memory st) = Inr (new_tree st) \<and>
   BLinkTree_lookup (new_tree st) k = Some (Inr 0) \<and>
   (\<exists>t'. BLinkTree_remove (new_tree st) k = Some (Inr (False, t')))"
proof -
  let ?n = "InternalNode_default (st 1)"
  have free: "\<not> is_locked (lock ?n)" "\<not> is_obsolete (lock ?n)"
    by (simp_all add: fresh_root_fields)
  have l: "load (new_tree st) 1 = Some ?n" by (simp add: load_new_tree)
  have f: "LeafNode_find ?n k = 0"
    by (simp add: LeafNode_find_def find_linear_def find_loop.simps [of _ _ 0] fresh_root_fields)
  have "BLinkTree_lookup (new_tree st) k = Some (Inr 0)"
    by (subst BLinkTree_lookup.simps)
      (simp add: traverse_fresh l readlock_free [OF free] fresh_root_fields f)
  moreover have u: "try_upgrade_writelock ?n 0 False = (?n\<lparr>lock := lock ?n + 2\<rparr>, False)"
    using upgrade_free [of ?n] by (simp add: fresh_root_fields)
  have "fst (LeafNode_remove (?n\<lparr>lock := lock ?n + 2\<rparr>) k) = False"
    by (simp add: LeafNode_remove_def fresh_root_fields)
  then have "\<exists>t'. BLinkTree_remove (new_tree st) k = Some (Inr (False, t'))"
    by (subst BLinkTree_remove.simps) (simp add: traverse_fresh l u)
  ultimately show ?thesis by (simp add: BLinkTree_ctor_new)
qed

end
